theory Spec2Isabelle
  imports
    Complex_Main
    "HOL-Library.Char_ord"
    "HOL-Library.List_Lexorder"
    "HOL-Library.Product_Lexorder"
    "HOL-Library.AList"
begin

section \<open>Resume Interview Coach: section splitter and session state machine\<close>

text \<open>
  A shallow embedding of \<^verbatim>\<open>src/app.py\<close>: the text normalizer \<^verbatim>\<open>clean_text\<close>, the section
  splitter \<^verbatim>\<open>split_sections\<close>, the question bank builder and the four handlers of the session
  (\<^verbatim>\<open>start_session\<close>, \<^verbatim>\<open>next_question\<close>, \<^verbatim>\<open>submit_answer\<close>, \<^verbatim>\<open>export_session\<close>).

  A Python \<^verbatim>\<open>str\<close> is a sequence of code points. Here a text is a \<^typ>\<open>string\<close> whose characters
  are read as the code points U+0000 to U+00FF, so \<^const>\<open>length\<close> counts what \<^verbatim>\<open>len\<close> counts;
  code points above U+00FF are outside the model.
\<close>

subsection \<open>Characters\<close>

abbreviation LF :: char where "LF \<equiv> CHR 0x0A"
abbreviation CR :: char where "CR \<equiv> CHR 0x0D"
abbreviation TAB :: char where "TAB \<equiv> CHR 0x09"
abbreviation SP :: char where "SP \<equiv> CHR 0x20"

text \<open>The characters that \<^verbatim>\<open>str.strip()\<close>, \<^verbatim>\<open>str.isspace()\<close> and the pattern \<^verbatim>\<open>\s\<close> treat as white space.\<close>

definition is_space :: "char \<Rightarrow> bool" where
  "is_space c = (c \<in> {CHR 0x09, CHR 0x0A, CHR 0x0B, CHR 0x0C, CHR 0x0D,
                        CHR 0x1C, CHR 0x1D, CHR 0x1E, CHR 0x1F, CHR 0x20, CHR 0x85, CHR 0xA0})"

text \<open>The characters matched by \<^verbatim>\<open>\w\<close> in a \<^verbatim>\<open>str\<close> pattern: alphanumerics and the underscore.\<close>

definition is_word :: "char \<Rightarrow> bool" where
  "is_word c = (let n = (of_char c :: nat) in
     (48 \<le> n \<and> n \<le> 57) \<or> (65 \<le> n \<and> n \<le> 90) \<or> n = 95 \<or> (97 \<le> n \<and> n \<le> 122) \<or>
     n = 170 \<or> n = 178 \<or> n = 179 \<or> n = 181 \<or> n = 185 \<or> n = 186 \<or> (188 \<le> n \<and> n \<le> 190) \<or>
     (192 \<le> n \<and> n \<le> 214) \<or> (216 \<le> n \<and> n \<le> 246) \<or> (248 \<le> n \<and> n \<le> 255))"

text \<open>\<^verbatim>\<open>str.lower()\<close> on one character; also the case folding of \<^verbatim>\<open>re.I\<close>.\<close>

definition lower :: "char \<Rightarrow> char" where
  "lower c = (let n = (of_char c :: nat) in
     if (65 \<le> n \<and> n \<le> 90) \<or> (192 \<le> n \<and> n \<le> 222 \<and> n \<noteq> 215) then char_of (n + 32) else c)"

text \<open>\<^verbatim>\<open>s.strip()\<close>: white space removed at both ends.\<close>

definition py_strip :: "string \<Rightarrow> string" where
  "py_strip s = rev (dropWhile is_space (rev (dropWhile is_space s)))"

text \<open>\<^verbatim>\<open>s[i:j]\<close> for non-negative \<open>i\<close>, \<open>j\<close>: out-of-range bounds are clamped, never an error.\<close>

definition slice :: "'a list \<Rightarrow> nat \<Rightarrow> nat \<Rightarrow> 'a list" where
  "slice s i j = drop i (take j s)"

subsection \<open>Text normalizer\<close>

text \<open>\<^verbatim>\<open>re.sub(r"\r", "\n", t)\<close>\<close>

definition cr_to_lf :: "string \<Rightarrow> string" where
  "cr_to_lf t = map (\<lambda>c. if c = CR then LF else c) t"

definition is_blank :: "char \<Rightarrow> bool" where
  "is_blank c = (c = SP \<or> c = TAB)"

text \<open>
  \<^verbatim>\<open>re.sub(r"[ \t]+", " ", t)\<close>: the scan goes left to right; where a blank stands, the
  longest run of blanks is replaced by one space and the scan goes on after the run; any other
  character is copied.
\<close>

function squeeze_blanks :: "string \<Rightarrow> string" where
  "squeeze_blanks [] = []"
| "squeeze_blanks (c # cs) =
     (if is_blank c then SP # squeeze_blanks (dropWhile is_blank cs)
      else c # squeeze_blanks cs)"
  by pat_completeness auto
termination
  by (relation "measure length") (auto simp: length_dropWhile_le le_imp_less_Suc)

text \<open>
  \<^verbatim>\<open>re.sub(r"\n{3,}", "\n\n", t)\<close>: where three newlines stand, the longest run of newlines is
  replaced by two and the scan goes on after the run; any other character (also a newline that
  starts a run of one or two) is copied.
\<close>

function (sequential) squeeze_newlines :: "string \<Rightarrow> string" where
  "squeeze_newlines (a # b # c # cs) =
     (if a = LF \<and> b = LF \<and> c = LF then LF # LF # squeeze_newlines (dropWhile (\<lambda>x. x = LF) cs)
      else a # squeeze_newlines (b # c # cs))"
| "squeeze_newlines cs = cs"
  by pat_completeness auto
termination
  by (relation "measure length") (auto simp: length_dropWhile_le le_imp_less_Suc less_SucI)

definition clean_text :: "string \<Rightarrow> string" where
  "clean_text t = py_strip (squeeze_newlines (squeeze_blanks (cr_to_lf t)))"

subsection \<open>Pattern matching\<close>

text \<open>
  The fragment of Python's \<^verbatim>\<open>re\<close> that the header pattern is written in. A position in the
  searched text is the character before it (none at the start of the text) and the text from it
  on: \<^verbatim>\<open>^\<close> and \<^verbatim>\<open>\b\<close> look at the former, \<^verbatim>\<open>$\<close> and the literals at the latter.
\<close>

type_synonym pos = "char option \<times> string"

datatype rx =
    Lit string    \<comment> \<open>a literal, compared under \<^verbatim>\<open>re.I\<close>\<close>
  | Bol           \<comment> \<open>\<^verbatim>\<open>^\<close> without \<^verbatim>\<open>re.M\<close>: the start of the text\<close>
  | Eol           \<comment> \<open>\<^verbatim>\<open>$\<close> without \<^verbatim>\<open>re.M\<close>: the end of the text, or before a newline that ends it\<close>
  | WordB         \<comment> \<open>\<^verbatim>\<open>\b\<close>\<close>
  | Spaces        \<comment> \<open>\<^verbatim>\<open>\s*\<close>\<close>
  | Opt rx        \<comment> \<open>\<^verbatim>\<open>r?\<close>\<close>
  | Alt rx rx     \<comment> \<open>\<^verbatim>\<open>r|s\<close>\<close>
  | Seq rx rx     \<comment> \<open>\<^verbatim>\<open>rs\<close>\<close>

text \<open>A literal matches character by character, letters regardless of case.\<close>

fun eat :: "string \<Rightarrow> pos \<Rightarrow> pos option" where
  "eat [] q = Some q"
| "eat (c # cs) (p, []) = None"
| "eat (c # cs) (p, x # xs) = (if lower x = lower c then eat cs (Some x, xs) else None)"

text \<open>\<^verbatim>\<open>\s*\<close> is greedy: the positions after the white space, the farthest first.\<close>

fun spaces :: "pos \<Rightarrow> pos list" where
  "spaces (p, []) = [(p, [])]"
| "spaces (p, x # xs) =
     (if is_space x then spaces (Some x, xs) @ [(p, x # xs)] else [(p, x # xs)])"

definition word_before :: "char option \<Rightarrow> bool" where
  "word_before p = (case p of None \<Rightarrow> False | Some c \<Rightarrow> is_word c)"

definition word_after :: "string \<Rightarrow> bool" where
  "word_after r = (case r of [] \<Rightarrow> False | c # _ \<Rightarrow> is_word c)"

text \<open>
  The positions at which a match of the pattern that starts at the given position can end, in
  the order in which the backtracking matcher tries them.
\<close>

fun ends :: "rx \<Rightarrow> pos \<Rightarrow> pos list" where
  "ends (Lit s) q = (case eat s q of None \<Rightarrow> [] | Some q' \<Rightarrow> [q'])"
| "ends Bol (p, r) = (if p = None then [(p, r)] else [])"
| "ends Eol (p, r) = (if r = [] \<or> r = [LF] then [(p, r)] else [])"
| "ends WordB (p, r) = (if word_before p \<noteq> word_after r then [(p, r)] else [])"
| "ends Spaces q = spaces q"
| "ends (Opt a) q = ends a q @ [q]"
| "ends (Alt a b) q = ends a q @ ends b q"
| "ends (Seq a b) q = concat (map (ends b) (ends a q))"

text \<open>
  \<^verbatim>\<open>re.search\<close> tries every position from the left, the end of the text included, and stops at
  the first one where the pattern matches. The result is the offset of that position
  (\<^verbatim>\<open>m.start()\<close>), or \<open>None\<close>.
\<close>

fun search :: "rx \<Rightarrow> pos \<Rightarrow> nat option" where
  "search e (p, []) = (if ends e (p, []) \<noteq> [] then Some 0 else None)"
| "search e (p, x # xs) =
     (if ends e (p, x # xs) \<noteq> [] then Some 0 else map_option Suc (search e (Some x, xs)))"

definition re_search_start :: "rx \<Rightarrow> string \<Rightarrow> nat option" where
  "re_search_start e t = search e (None, t)"

subsection \<open>Section splitter\<close>

text \<open>
  \<^verbatim>\<open>HEADERS\<close>: each label with its pattern \<^verbatim>\<open>\b(phrase|phrase|...)\b\<close>.
\<close>

definition HEADERS :: "(string \<times> rx) list" where
  "HEADERS =
    [(''summary'',
        Seq WordB (Seq (Alt (Lit ''summary'') (Alt (Lit ''professional summary'') (Lit ''profile''))) WordB)),
     (''education'',
        Seq WordB (Seq (Alt (Lit ''education'') (Alt (Lit ''academics'') (Lit ''academic background''))) WordB)),
     (''experience'',
        Seq WordB (Seq (Alt (Lit ''experience'') (Alt (Lit ''work experience'')
          (Alt (Lit ''professional experience'') (Lit ''employment'')))) WordB)),
     (''projects'',
        Seq WordB (Seq (Alt (Lit ''projects'') (Alt (Lit ''selected projects'') (Lit ''research''))) WordB)),
     (''skills'',
        Seq WordB (Seq (Alt (Lit ''skills'') (Alt (Lit ''technical skills'') (Lit ''core skills''))) WordB)),
     (''certifications'',
        Seq WordB (Seq (Alt (Lit ''certifications'') (Lit ''licenses'')) WordB))]"

text \<open>The pattern searched for a header: \<^verbatim>\<open>(^|\n)\s*{pat}\s*:?\s*($|\n)\<close>.\<close>

definition header_rx :: "rx \<Rightarrow> rx" where
  "header_rx pat =
     Seq (Alt Bol (Lit [LF])) (Seq Spaces (Seq pat (Seq Spaces (Seq (Opt (Lit '':''))
       (Seq Spaces (Alt Eol (Lit [LF])))))))"

text \<open>
  The first loop of \<^verbatim>\<open>split_sections\<close>: for each header, in the order of \<^verbatim>\<open>HEADERS\<close>, the pair
  \<^verbatim>\<open>(m.start(), key)\<close> when the header is found.
\<close>

definition find_headers :: "string \<Rightarrow> (nat \<times> string) list" where
  "find_headers t =
     concat (map (\<lambda>(key, pat). case re_search_start (header_rx pat) t of
                                    None \<Rightarrow> [] | Some start \<Rightarrow> [(start, key)]) HEADERS)"

text \<open>
  The second loop: the \<open>i\<close>-th header's span runs from its match to the match of the next
  header in the sorted list, the last one's to the end of the text.
\<close>

fun bounds :: "nat \<Rightarrow> (nat \<times> string) list \<Rightarrow> (string \<times> nat \<times> nat) list" where
  "bounds n [] = []"
| "bounds n [(start, key)] = [(key, start, n)]"
| "bounds n ((start, key) # (nxt, key') # rest) = (key, start, nxt) # bounds n ((nxt, key') # rest)"

text \<open>
  A \<^verbatim>\<open>dict\<close> from labels to texts, as the list of its items in insertion order;
  \<^const>\<open>AList.update\<close> is \<^verbatim>\<open>d[k] = v\<close>: a new key goes to the end, a present key keeps its place.
\<close>

type_synonym sections = "(string \<times> string) list"

definition fill :: "string \<Rightarrow> (string \<times> nat \<times> nat) list \<Rightarrow> sections" where
  "fill t bs =
     foldl (\<lambda>secs (key, start, stop). AList.update key (py_strip (slice t start stop)) secs) [] bs"

definition setdefault :: "sections \<Rightarrow> string \<Rightarrow> string \<Rightarrow> sections" where
  "setdefault secs key v = (if key \<in> fst ` set secs then secs else secs @ [(key, v)])"

definition split_sections :: "string \<Rightarrow> sections" where
  "split_sections text =
     (let t = clean_text text; found = find_headers t in
      if found = [] then [(''summary'', t)]
      else
        let secs = fill t (bounds (length t) (sort found)) in
        if ''experience'' \<notin> fst ` set secs \<and> length t > 800
        then setdefault secs ''experience'' (take 1500 t)
        else secs)"

subsection \<open>Values exchanged with the backend\<close>

text \<open>
  What \<^verbatim>\<open>json.loads\<close> returns. A Python \<^verbatim>\<open>float\<close> is a rational number, an infinity or a NaN;
  a \<^verbatim>\<open>dict\<close> is the list of its items, each key once.
\<close>

datatype pyfloat = Finite rat | PlusInf | MinusInf | NaN

datatype json =
    JNull
  | JBool bool
  | JInt int
  | JFloat pyfloat
  | JStr string
  | JList "json list"
  | JObj "(string \<times> json) list"

text \<open>The exceptions of the model. \<open>BackendError\<close> carries the text of what the backend call raised.\<close>

datatype exn =
    BackendError string
  | AttributeError
  | TypeError
  | ValueError
  | OverflowError
  | IndexError
  | FileError

text \<open>
  How one request to the backend ends, seen from the handler that makes it:
  \<^item> \<open>Raised e\<close>: \<^verbatim>\<open>client.chat.completions.create\<close> raises, with text \<open>e\<close>;
  \<^item> \<open>Unparsed raw\<close>: the call returns and \<^verbatim>\<open>json.loads(r.choices[0].message.content)\<close>
    raises; \<open>raw\<close> is the content;
  \<^item> \<open>Parsed d\<close>: the call returns and the content parses to \<open>d\<close>.
\<close>

datatype reply = Raised string | Unparsed string | Parsed json

text \<open>\<^verbatim>\<open>data.get(key, default)\<close>: only a \<^verbatim>\<open>dict\<close> has the method.\<close>

definition py_get :: "json \<Rightarrow> string \<Rightarrow> json \<Rightarrow> exn + json" where
  "py_get data key dflt =
     (case data of
        JObj items \<Rightarrow> Inr (case map_of items key of None \<Rightarrow> dflt | Some v \<Rightarrow> v)
      | _ \<Rightarrow> Inl AttributeError)"

text \<open>
  \<^verbatim>\<open>int(v)\<close>. The conversion of a string is Python's own and is a parameter here
  (\<open>None\<close> where \<^verbatim>\<open>int\<close> raises \<^verbatim>\<open>ValueError\<close>); a float is truncated towards zero.
\<close>

definition py_int :: "(string \<Rightarrow> int option) \<Rightarrow> json \<Rightarrow> exn + int" where
  "py_int int_of_str v =
     (case v of
        JInt i \<Rightarrow> Inr i
      | JBool b \<Rightarrow> Inr (if b then 1 else 0)
      | JFloat (Finite q) \<Rightarrow> Inr (if 0 \<le> q then \<lfloor>q\<rfloor> else \<lceil>q\<rceil>)
      | JFloat NaN \<Rightarrow> Inl ValueError
      | JFloat _ \<Rightarrow> Inl OverflowError
      | JStr s \<Rightarrow> (case int_of_str s of None \<Rightarrow> Inl ValueError | Some i \<Rightarrow> Inr i)
      | _ \<Rightarrow> Inl TypeError)"

text \<open>The truth value of \<^verbatim>\<open>v\<close> in \<^verbatim>\<open>if v\<close>.\<close>

definition truthy :: "json \<Rightarrow> bool" where
  "truthy v =
     (case v of
        JNull \<Rightarrow> False
      | JBool b \<Rightarrow> b
      | JInt i \<Rightarrow> i \<noteq> 0
      | JFloat f \<Rightarrow> f \<noteq> Finite 0
      | JStr s \<Rightarrow> s \<noteq> []
      | JList xs \<Rightarrow> xs \<noteq> []
      | JObj items \<Rightarrow> items \<noteq> [])"

text \<open>
  \<^verbatim>\<open>for x in v\<close>: the items of a list, the characters of a string, the keys of a \<^verbatim>\<open>dict\<close>;
  anything else raises \<^verbatim>\<open>TypeError\<close>.
\<close>

definition py_iter :: "json \<Rightarrow> exn + json list" where
  "py_iter v =
     (case v of
        JList xs \<Rightarrow> Inr xs
      | JStr s \<Rightarrow> Inr (map (\<lambda>c. JStr [c]) s)
      | JObj items \<Rightarrow> Inr (map (\<lambda>(k, _). JStr k) items)
      | _ \<Rightarrow> Inl TypeError)"

text \<open>\<^verbatim>\<open>xs[i]\<close>: a negative index counts from the end; \<open>None\<close> is \<^verbatim>\<open>IndexError\<close>.\<close>

definition py_index :: "'a list \<Rightarrow> int \<Rightarrow> 'a option" where
  "py_index xs i =
     (if 0 \<le> i \<and> i < int (length xs) then Some (xs ! nat i)
      else if - int (length xs) \<le> i \<and> i < 0 then Some (xs ! nat (int (length xs) + i))
      else None)"

subsection \<open>Question bank\<close>

text \<open>
  The question of a bank entry is what the backend sent (\<open>Asked\<close>), or the note
  \<^verbatim>\<open>[Error creating questions for {sec}: {e}]\<close> (\<open>ErrorNote sec e\<close>).
\<close>

datatype question = Asked json | ErrorNote string exn

record bank_entry =
  b_section :: string
  b_question :: question

text \<open>\<^verbatim>\<open>s.splitlines()\<close>: the characters that end a line, and \<^verbatim>\<open>\r\n\<close> as one line end.\<close>

definition is_linebreak :: "char \<Rightarrow> bool" where
  "is_linebreak c = (c \<in> {CHR 0x0A, CHR 0x0B, CHR 0x0C, CHR 0x0D, CHR 0x1C, CHR 0x1D, CHR 0x1E, CHR 0x85})"

fun lines_from :: "string \<Rightarrow> string \<Rightarrow> string list" where
  "lines_from cur [] = (if cur = [] then [] else [cur])"
| "lines_from cur [c] = (if is_linebreak c then [cur] else [cur @ [c]])"
| "lines_from cur (c # d # cs) =
     (if c = CR \<and> d = LF then cur # lines_from [] cs
      else if is_linebreak c then cur # lines_from [] (d # cs)
      else lines_from (cur @ [c]) (d # cs))"

definition splitlines :: "string \<Rightarrow> string list" where
  "splitlines s = lines_from [] s"

text \<open>
  \<^verbatim>\<open>line.strip("-\<bullet> ")\<close>: of the three characters to strip, the bullet U+2022 is not a
  character of the texts modelled here.
\<close>

definition strip_bullets :: "string \<Rightarrow> string" where
  "strip_bullets s =
     (let drop_it = (\<lambda>c. c = CHR ''-'' \<or> c = SP) in rev (dropWhile drop_it (rev (dropWhile drop_it s))))"

text \<open>The fallback for a reply that is not strict JSON: one question for each line of more than four characters.\<close>

definition fallback_questions :: "string \<Rightarrow> json list" where
  "fallback_questions raw =
     map JStr (filter (\<lambda>s. length s > 4) (map (\<lambda>line. py_strip (strip_bullets line)) (splitlines raw)))"

text \<open>
  The body of the loop of \<^verbatim>\<open>build_bank_from_text\<close> for one section with enough text, given how
  the request for that section ends: the entries appended to the bank.
\<close>

definition section_entries :: "string \<Rightarrow> reply \<Rightarrow> bank_entry list" where
  "section_entries sec r =
     (let failed = (\<lambda>e. [\<lparr>b_section = ''system'', b_question = ErrorNote sec e\<rparr>]);
          entries = map (\<lambda>q. \<lparr>b_section = sec, b_question = Asked q\<rparr>)
      in case r of
           Raised e \<Rightarrow> failed (BackendError e)
         | Unparsed raw \<Rightarrow> entries (fallback_questions raw)
         | Parsed data \<Rightarrow>
             (case py_get data ''questions'' (JList []) of
                Inl e \<Rightarrow> failed e
              | Inr qs \<Rightarrow> (case py_iter qs of Inl e \<Rightarrow> failed e | Inr items \<Rightarrow> entries items)))"

text \<open>
  \<^verbatim>\<open>build_bank_from_text\<close>. The backend is the function \<open>backend\<close> from the label of the
  section asked about to how that request ends (each label is asked about once); the
  permutation made by \<^verbatim>\<open>random.shuffle\<close> is the function \<open>shuffle\<close>. The prompt (the label,
  the first 3000 characters of the body and the number of questions wanted, from \<^verbatim>\<open>k_map\<close>)
  is what the backend reads and has no other use in the code.
\<close>

definition build_bank_from_text ::
  "(bank_entry list \<Rightarrow> bank_entry list) \<Rightarrow> (string \<Rightarrow> reply) \<Rightarrow> string \<Rightarrow> bank_entry list" where
  "build_bank_from_text shuffle backend text =
     shuffle (concat (map (\<lambda>(sec, body).
                if body = [] \<or> length body < 120 then [] else section_entries sec (backend sec))
              (split_sections text)))"

subsection \<open>Session\<close>

record transcript_entry =
  ts :: rat
  t_section :: string
  t_question :: question
  answer :: string
  feedback :: json
  rating :: int
  sample_answer :: json

record state =
  bank :: "bank_entry list"
  asked :: "int set"
  current :: "int option"
  transcript :: "transcript_entry list"

text \<open>What a handler shows to the user, by the literal or format string of the source.\<close>

datatype message =
    UploadWarning                \<comment> \<open>\<^verbatim>\<open>Please upload 1+ PDF resumes.\<close>\<close>
  | NoPdfWarning                 \<comment> \<open>\<^verbatim>\<open>No valid PDFs detected.\<close>\<close>
  | BankBuilt nat                \<comment> \<open>\<^verbatim>\<open>Question bank built: **{len(bank)}** questions. ...\<close>\<close>
  | AllCompleted                 \<comment> \<open>\<^verbatim>\<open>All questions completed. You can export the transcript.\<close>\<close>
  | Question string question     \<comment> \<open>\<^verbatim>\<open>**Question ({q['section']}):** {q['question']}\<close>\<close>
  | NextFirstWarning             \<comment> \<open>\<^verbatim>\<open>Click 'Next question' first.\<close>\<close>
  | TypeAnswerWarning            \<comment> \<open>\<^verbatim>\<open>Type an answer before submitting.\<close>\<close>
  | Critique int json json       \<comment> \<open>\<^verbatim>\<open>**Rating:** {rating}/5 ... {fb_lines} ... {sample}\<close>\<close>
  | ApiError exn                 \<comment> \<open>\<^verbatim>\<open>API error: {e}\<close>\<close>
  | NoTranscriptWarning          \<comment> \<open>\<^verbatim>\<open>No transcript yet.\<close>\<close>
  | ExportReady                  \<comment> \<open>\<^verbatim>\<open>Export ready.\<close>\<close>

text \<open>The state of \<^verbatim>\<open>gr.State\<close> at the start, and the one the failed builds return.\<close>

definition empty_state :: state where
  "empty_state = \<lparr>bank = [], asked = {}, current = None, transcript = []\<rparr>"

text \<open>
  An uploaded file: its name, and what \<^verbatim>\<open>pdfplumber\<close> reads in it: the text of each page
  (\<open>None\<close> for a page without text), or \<open>None\<close> when reading the file raises.
\<close>

record upload =
  name :: string
  pages :: "string option list option"

fun py_join :: "string \<Rightarrow> string list \<Rightarrow> string" where
  "py_join sep [] = []"
| "py_join sep [x] = x"
| "py_join sep (x # y # ys) = x @ sep @ py_join sep (y # ys)"

definition extract_text_from_pdf_bytes :: "string option list option \<Rightarrow> exn + string" where
  "extract_text_from_pdf_bytes pdf =
     (case pdf of
        None \<Rightarrow> Inl FileError
      | Some ps \<Rightarrow> Inr (py_strip (py_join [LF] (map (\<lambda>p. case p of None \<Rightarrow> [] | Some c \<Rightarrow> c) ps))))"

text \<open>\<^verbatim>\<open>f.name.lower().endswith(".pdf")\<close>\<close>

definition is_pdf_name :: "string \<Rightarrow> bool" where
  "is_pdf_name n = (4 \<le> length n \<and> drop (length n - 4) (map lower n) = ''.pdf'')"

text \<open>The loop over the files: the texts of those named as PDFs; it stops at the first file that cannot be read.\<close>

fun read_texts :: "upload list \<Rightarrow> exn + string list" where
  "read_texts [] = Inr []"
| "read_texts (f # fs) =
     (if \<not> is_pdf_name (name f) then read_texts fs
      else case extract_text_from_pdf_bytes (pages f) of
             Inl e \<Rightarrow> Inl e
           | Inr t \<Rightarrow> (case read_texts fs of Inl e \<Rightarrow> Inl e | Inr texts \<Rightarrow> Inr (t # texts)))"

text \<open>\<^verbatim>\<open>start_session\<close>; \<open>files\<close> is \<open>None\<close> when nothing was uploaded.\<close>

definition start_session ::
  "(bank_entry list \<Rightarrow> bank_entry list) \<Rightarrow> (string \<Rightarrow> reply) \<Rightarrow> upload list option \<Rightarrow> exn + message \<times> state" where
  "start_session shuffle backend files =
     (case files of
        None \<Rightarrow> Inr (UploadWarning, empty_state)
      | Some [] \<Rightarrow> Inr (UploadWarning, empty_state)
      | Some fs \<Rightarrow>
          (case read_texts fs of
             Inl e \<Rightarrow> Inl e
           | Inr texts \<Rightarrow>
               if texts = [] then Inr (NoPdfWarning, empty_state)
               else
                 let combined = [LF, LF] @ py_join ([LF, LF] @ replicate 80 (CHR ''-'') @ [LF, LF]) texts;
                     b = build_bank_from_text shuffle backend combined
                 in Inr (BankBuilt (length b),
                         \<lparr>bank = b, asked = {}, current = None, transcript = []\<rparr>)))"

text \<open>The indices not asked yet, in increasing order.\<close>

definition candidates :: "state \<Rightarrow> int list" where
  "candidates s = filter (\<lambda>i. i \<notin> asked s) (map int [0 ..< length (bank s)])"

text \<open>
  \<^verbatim>\<open>next_question\<close>; \<open>r\<close> is the number drawn by \<^verbatim>\<open>random.choice\<close>, which returns the
  candidate at that position.
\<close>

definition next_question :: "nat \<Rightarrow> state \<Rightarrow> message \<times> state" where
  "next_question r s =
     (let cands = candidates s in
      if cands = [] then (AllCompleted, s\<lparr>current := None\<rparr>)
      else
        let idx = cands ! (r mod length cands);
            s' = s\<lparr>asked := insert idx (asked s), current := Some idx\<rparr>;
            q = bank s ! nat idx
        in (Question (b_section q) (b_question q), s'))"

text \<open>
  \<^verbatim>\<open>submit_answer\<close>; \<open>r\<close> is how the request to the backend ends, \<open>now\<close> is \<^verbatim>\<open>time.time()\<close>,
  and \<open>answer\<close> is \<open>None\<close> for an absent answer. \<open>Inl\<close> is an exception that leaves the handler.
\<close>

definition submit_answer ::
  "(string \<Rightarrow> int option) \<Rightarrow> reply \<Rightarrow> rat \<Rightarrow> state \<Rightarrow> string option \<Rightarrow> exn + message \<times> state" where
  "submit_answer int_of_str r now s ans =
     (case current s of
        None \<Rightarrow> Inr (NextFirstWarning, s)
      | Some idx \<Rightarrow>
          if idx \<ge> int (length (bank s)) then Inr (NextFirstWarning, s)
          else
            let a = py_strip (case ans of None \<Rightarrow> [] | Some x \<Rightarrow> x) in
            if a = [] then Inr (TypeAnswerWarning, s)
            else
              (case py_index (bank s) idx of
                 None \<Rightarrow> Inl IndexError
               | Some qitem \<Rightarrow>
                   (case r of
                      Raised e \<Rightarrow> Inr (ApiError (BackendError e), s)
                    | _ \<Rightarrow>
                        let data = (case r of
                                      Parsed d \<Rightarrow> d
                                    | _ \<Rightarrow> JObj [(''feedback'', JList [JStr ''(Model returned non-JSON; retry)'']),
                                                (''rating'', JInt 0), (''sample_answer'', JStr [])])
                        in case py_get data ''feedback'' (JList []) of
                             Inl e \<Rightarrow> Inr (ApiError e, s)
                           | Inr fb \<Rightarrow>
                               (case py_get data ''rating'' (JInt 0) of
                                  Inl e \<Rightarrow> Inr (ApiError e, s)
                                | Inr rt \<Rightarrow>
                                    (case py_int int_of_str rt of
                                       Inl e \<Rightarrow> Inr (ApiError e, s)
                                     | Inr n \<Rightarrow>
                                         (case py_get data ''sample_answer'' (JStr []) of
                                            Inl e \<Rightarrow> Inr (ApiError e, s)
                                          | Inr sample \<Rightarrow>
                                              let s' = s\<lparr>transcript := transcript s @
                                                          [\<lparr>ts = now, t_section = b_section qitem,
                                                            t_question = b_question qitem, answer = a,
                                                            feedback = fb, rating = n, sample_answer = sample\<rparr>]\<rparr>
                                              in if truthy fb \<and> py_iter fb = Inl TypeError
                                                 then Inr (ApiError TypeError, s')
                                                 else Inr (Critique n fb sample, s')))))))"

text \<open>\<^verbatim>\<open>export_session\<close>: the file written (its \<^verbatim>\<open>transcript\<close> list) and the status.\<close>

definition export_session :: "state \<Rightarrow> transcript_entry list option \<times> message" where
  "export_session s =
     (if transcript s = [] then (None, NoTranscriptWarning) else (Some (transcript s), ExportReady))"

subsection \<open>The session as the user interface drives it\<close>

text \<open>
  The four buttons. The state component is an output of build, next and submit, and is
  overwritten by the state the handler returns; a handler that raises updates nothing, and
  export has no state output.
\<close>

datatype action =
    Build "bank_entry list \<Rightarrow> bank_entry list" "string \<Rightarrow> reply" "upload list option"
  | Next nat
  | Submit reply rat "string option"
  | Export

fun step :: "(string \<Rightarrow> int option) \<Rightarrow> action \<Rightarrow> state \<Rightarrow> state" where
  "step int_of_str (Build shuffle backend files) s =
     (case start_session shuffle backend files of Inl e \<Rightarrow> s | Inr (m, s') \<Rightarrow> s')"
| "step int_of_str (Next r) s = snd (next_question r s)"
| "step int_of_str (Submit r now ans) s =
     (case submit_answer int_of_str r now s ans of Inl e \<Rightarrow> s | Inr (m, s') \<Rightarrow> s')"
| "step int_of_str Export s = s"

inductive reachable :: "(string \<Rightarrow> int option) \<Rightarrow> state \<Rightarrow> bool" for int_of_str where
  start: "reachable int_of_str empty_state"
| step: "reachable int_of_str s \<Longrightarrow> reachable int_of_str (step int_of_str a s)"

text \<open>The state after a run of next calls, one number drawn for each.\<close>

definition after_calls :: "nat list \<Rightarrow> state \<Rightarrow> state" where
  "after_calls rs s = foldl (\<lambda>s r. snd (next_question r s)) s rs"

subsection \<open>Example inputs\<close>

text \<open>A session with a bank of one question, which has been asked.\<close>

definition state_A :: state where
  "state_A = \<lparr>bank = [\<lparr>b_section = ''skills'', b_question = Asked (JStr ''Which languages?'')\<rparr>],
               asked = {0}, current = Some 0, transcript = []\<rparr>"

text \<open>A session with a bank of two questions, none asked yet.\<close>

definition state_B :: state where
  "state_B = \<lparr>bank = [\<lparr>b_section = ''skills'', b_question = Asked (JStr ''Which languages?'')\<rparr>,
                       \<lparr>b_section = ''education'', b_question = Asked (JStr ''Which degree?'')\<rparr>],
               asked = {}, current = None, transcript = []\<rparr>"

text \<open>A state whose current index is not an index of its bank.\<close>

definition state_C :: state where
  "state_C = \<lparr>bank = [], asked = {}, current = Some 3, transcript = []\<rparr>"

text \<open>An uploaded file that is not named as a PDF.\<close>

definition notes_txt :: upload where
  "notes_txt = \<lparr>name = ''notes.txt'', pages = Some [Some ''Skills'']\<rparr>"

text \<open>A resume of one page: a skills header and 120 characters under it.\<close>

definition cv_pdf :: upload where
  "cv_pdf = \<lparr>name = ''cv.PDF'', pages = Some [Some (''Skills'' @ [LF] @ replicate 120 (CHR ''x''))]\<rparr>"

text \<open>A backend that answers every request with one question.\<close>

definition one_question :: "string \<Rightarrow> reply" where
  "one_question sec = Parsed (JObj [(''questions'', JList [JStr ''Which languages?''])])"

text \<open>A backend that answers every request with the same question twice.\<close>

definition same_question_twice :: "string \<Rightarrow> reply" where
  "same_question_twice sec =
     Parsed (JObj [(''questions'', JList [JStr ''Which languages?'', JStr ''Which languages?''])])"

text \<open>A session whose bank holds the same question at both indices, none asked yet.\<close>

definition state_D :: state where
  "state_D = \<lparr>bank = [\<lparr>b_section = ''skills'', b_question = Asked (JStr ''Which languages?'')\<rparr>,
                       \<lparr>b_section = ''skills'', b_question = Asked (JStr ''Which languages?'')\<rparr>],
               asked = {}, current = None, transcript = []\<rparr>"

text \<open>The example text of the specification.\<close>

definition example_text :: string where
  "example_text = ''Skills\<newline>Python, Go\<newline>Education\<newline>BS CS''"

text \<open>A text of 801 characters without any header.\<close>

definition long_plain :: string where
  "long_plain = replicate 801 (CHR ''x'')"

text \<open>A text of 907 characters with a skills header and no other.\<close>

definition long_skills :: string where
  "long_skills = ''Skills'' @ LF # replicate 900 (CHR ''x'')"

text \<open>A text that is an experience header and nothing else.\<close>

definition experience_only :: string where
  "experience_only = ''Experience''"

subsection \<open>Predicates used in the proofs about the text normalizer\<close>

text \<open>No tab and no two spaces in a row: the texts that \<^const>\<open>squeeze_blanks\<close> leaves alone.\<close>

fun blanks_ok :: "string \<Rightarrow> bool" where
  "blanks_ok [] = True"
| "blanks_ok [c] = (c \<noteq> TAB)"
| "blanks_ok (c # d # cs) = (c \<noteq> TAB \<and> \<not> (c = SP \<and> d = SP) \<and> blanks_ok (d # cs))"

text \<open>No three newlines in a row: the texts that \<^const>\<open>squeeze_newlines\<close> leaves alone.\<close>

fun newlines_ok :: "string \<Rightarrow> bool" where
  "newlines_ok (a # b # c # cs) = (\<not> (a = LF \<and> b = LF \<and> c = LF) \<and> newlines_ok (b # c # cs))"
| "newlines_ok cs = True"

subsection \<open>The invariant of the session\<close>

definition session_inv :: "state \<Rightarrow> bool" where
  "session_inv s = (asked s \<subseteq> {0 ..< int (length (bank s))} \<and>
                    (case current s of None \<Rightarrow> True | Some i \<Rightarrow> i \<in> asked s))"

section \<open>Properties\<close>

subsection \<open>The text normalizer\<close>

lemma blanks_ok_Cons:
  "blanks_ok (c # ys) \<longleftrightarrow> c \<noteq> TAB \<and> (ys = [] \<or> \<not> (c = SP \<and> hd ys = SP)) \<and> blanks_ok ys"
  by (cases ys) auto

lemma blanks_ok_append: "blanks_ok (xs @ ys) \<Longrightarrow> blanks_ok xs \<and> blanks_ok ys"
proof (induction xs)
  case Nil
  then show ?case by simp
next
  case (Cons x xs)
  then show ?case
    by (cases xs) (auto simp: blanks_ok_Cons)
qed

lemma blanks_ok_dropWhile: "blanks_ok xs \<Longrightarrow> blanks_ok (dropWhile P xs)"
  using blanks_ok_append [of "takeWhile P xs" "dropWhile P xs"] by simp

lemma rev_dropWhile_rev_prefix: "rev (dropWhile P (rev xs)) @ rev (takeWhile P (rev xs)) = xs"
proof -
  have "rev (takeWhile P (rev xs) @ dropWhile P (rev xs)) = xs"
    by simp
  then show ?thesis
    by (simp only: rev_append)
qed

lemma blanks_ok_strip: "blanks_ok xs \<Longrightarrow> blanks_ok (py_strip xs)"
proof -
  assume ok: "blanks_ok xs"
  let ?ys = "dropWhile is_space xs"
  have "blanks_ok ?ys"
    using ok by (rule blanks_ok_dropWhile)
  then have "blanks_ok (rev (dropWhile is_space (rev ?ys)) @ rev (takeWhile is_space (rev ?ys)))"
    by (simp only: rev_dropWhile_rev_prefix)
  then show ?thesis
    unfolding py_strip_def by (rule blanks_ok_append [THEN conjunct1])
qed

lemma squeeze_blanks_hd:
  "xs \<noteq> [] \<Longrightarrow> \<not> is_blank (hd xs) \<Longrightarrow> squeeze_blanks xs \<noteq> [] \<and> hd (squeeze_blanks xs) = hd xs"
  by (cases xs) auto

lemma dropWhile_hd: "dropWhile P xs \<noteq> [] \<Longrightarrow> \<not> P (hd (dropWhile P xs))"
  using hd_dropWhile by blast

lemma blanks_ok_squeeze_blanks: "blanks_ok (squeeze_blanks xs)"
proof (induction xs rule: squeeze_blanks.induct)
  case 1
  then show ?case by simp
next
  case (2 c cs)
  show ?case
  proof (cases "is_blank c")
    case True
    let ?r = "dropWhile is_blank cs"
    have ih: "blanks_ok (squeeze_blanks ?r)"
      using 2(1) True by simp
    have "squeeze_blanks ?r = [] \<or> hd (squeeze_blanks ?r) \<noteq> SP"
    proof (cases "?r = []")
      case True
      then have "squeeze_blanks ?r = []"
        by (simp only: squeeze_blanks.simps)
      then show ?thesis ..
    next
      case False
      then have "\<not> is_blank (hd ?r)"
        by (rule dropWhile_hd)
      with False have "hd (squeeze_blanks ?r) = hd ?r" and "\<not> is_blank (hd ?r)"
        using squeeze_blanks_hd by auto
      then show ?thesis
        by (auto simp: is_blank_def)
    qed
    with ih True show ?thesis
      by (auto simp: blanks_ok_Cons)
  next
    case False
    then have ih: "blanks_ok (squeeze_blanks cs)"
      using 2(2) by simp
    from False have "c \<noteq> TAB" "c \<noteq> SP"
      by (auto simp: is_blank_def)
    with ih False show ?thesis
      by (auto simp: blanks_ok_Cons)
  qed
qed

lemma squeeze_blanks_fix: "blanks_ok xs \<Longrightarrow> squeeze_blanks xs = xs"
proof (induction xs rule: blanks_ok.induct)
  case 1
  then show ?case by simp
next
  case (2 c)
  then show ?case by (simp add: is_blank_def)
next
  case (3 c d cs)
  then have rest: "squeeze_blanks (d # cs) = d # cs" and d: "d \<noteq> TAB"
    by (auto simp: blanks_ok_Cons)
  show ?case
  proof (cases "is_blank c")
    case True
    with 3(2) have "c = SP" "d \<noteq> SP"
      by (auto simp: is_blank_def)
    with d have "dropWhile is_blank (d # cs) = d # cs"
      by (simp add: is_blank_def)
    with True rest \<open>c = SP\<close> show ?thesis by simp
  next
    case False
    with rest show ?thesis by simp
  qed
qed

lemma squeeze_newlines_take2: "take 2 (squeeze_newlines xs) = take 2 xs"
proof (induction xs rule: squeeze_newlines.induct)
  case (1 a b c cs)
  show ?case
  proof (cases "a = LF \<and> b = LF \<and> c = LF")
    case True
    then show ?thesis by simp
  next
    case False
    then have "take 2 (squeeze_newlines (b # c # cs)) = [b, c]"
      using 1(2) by simp
    then have "take 1 (squeeze_newlines (b # c # cs)) = [b]"
      by (cases "squeeze_newlines (b # c # cs)") auto
    with False show ?thesis
      by (simp add: numeral_2_eq_2)
  qed
qed simp_all

lemma squeeze_newlines_hd:
  "xs \<noteq> [] \<Longrightarrow> squeeze_newlines xs \<noteq> [] \<and> hd (squeeze_newlines xs) = hd xs"
  using squeeze_newlines_take2 [of xs]
  by (cases xs; cases "squeeze_newlines xs") (auto simp: numeral_2_eq_2)

lemma blanks_ok_squeeze_newlines: "blanks_ok xs \<Longrightarrow> blanks_ok (squeeze_newlines xs)"
proof (induction xs rule: squeeze_newlines.induct)
  case (1 a b c cs)
  show ?case
  proof (cases "a = LF \<and> b = LF \<and> c = LF")
    case True
    have "blanks_ok cs"
      using 1(3) blanks_ok_append [of "[a, b, c]" cs] by simp
    then have "blanks_ok (dropWhile (\<lambda>x. x = LF) cs)"
      by (rule blanks_ok_dropWhile)
    then have "blanks_ok (squeeze_newlines (dropWhile (\<lambda>x. x = LF) cs))"
      using 1(1) True by simp
    with True show ?thesis
      by (simp add: blanks_ok_Cons)
  next
    case False
    have tl: "blanks_ok (b # c # cs)" and a: "a \<noteq> TAB" "\<not> (a = SP \<and> b = SP)"
      using 1(3) by auto
    have ih: "blanks_ok (squeeze_newlines (b # c # cs))"
      using 1(2) False tl by simp
    have hd: "squeeze_newlines (b # c # cs) \<noteq> [] \<and> hd (squeeze_newlines (b # c # cs)) = b"
      using squeeze_newlines_hd [of "b # c # cs"] by simp
    have eq: "squeeze_newlines (a # b # c # cs) = a # squeeze_newlines (b # c # cs)"
      using False by auto
    show ?thesis
      unfolding eq blanks_ok_Cons using ih a hd by simp
  qed
qed simp_all

lemma newlines_ok_Cons:
  "newlines_ok (a # ys) \<longleftrightarrow> \<not> (a = LF \<and> take 2 ys = [LF, LF]) \<and> newlines_ok ys"
proof (cases ys)
  case Nil
  then show ?thesis by simp
next
  case (Cons b zs)
  then show ?thesis
    by (cases zs) (auto simp: numeral_2_eq_2)
qed

lemma newlines_ok_append: "newlines_ok (xs @ ys) \<Longrightarrow> newlines_ok xs \<and> newlines_ok ys"
proof (induction xs rule: newlines_ok.induct)
  case (1 a b c cs)
  then show ?case by auto
qed (simp_all add: newlines_ok_Cons)

lemma newlines_ok_strip: "newlines_ok xs \<Longrightarrow> newlines_ok (py_strip xs)"
proof -
  assume ok: "newlines_ok xs"
  let ?ys = "dropWhile is_space xs"
  have "newlines_ok (takeWhile is_space xs @ ?ys)"
    using ok by simp
  then have "newlines_ok ?ys"
    by (rule newlines_ok_append [THEN conjunct2])
  then have "newlines_ok (rev (dropWhile is_space (rev ?ys)) @ rev (takeWhile is_space (rev ?ys)))"
    by (simp only: rev_dropWhile_rev_prefix)
  then show ?thesis
    unfolding py_strip_def by (rule newlines_ok_append [THEN conjunct1])
qed

lemma newlines_ok_squeeze_newlines: "newlines_ok (squeeze_newlines xs)"
proof (induction xs rule: squeeze_newlines.induct)
  case (1 a b c cs)
  show ?case
  proof (cases "a = LF \<and> b = LF \<and> c = LF")
    case True
    let ?r = "dropWhile (\<lambda>x. x = LF) cs"
    have ih: "newlines_ok (squeeze_newlines ?r)"
      using 1(1) True by simp
    have nolf: "squeeze_newlines ?r = [] \<or> hd (squeeze_newlines ?r) \<noteq> LF"
    proof (cases "?r = []")
      case True
      then have "squeeze_newlines ?r = []"
        by (simp only: squeeze_newlines.simps)
      then show ?thesis ..
    next
      case False
      then have "hd ?r \<noteq> LF"
        using dropWhile_hd [of "\<lambda>x. x = LF" cs] by simp
      moreover have "hd (squeeze_newlines ?r) = hd ?r"
        using squeeze_newlines_hd [OF False] by simp
      ultimately show ?thesis by simp
    qed
    have eq: "squeeze_newlines (a # b # c # cs) = LF # LF # squeeze_newlines ?r"
      using True by simp
    have "newlines_ok (LF # LF # squeeze_newlines ?r)"
      using ih nolf by (cases "squeeze_newlines ?r") (auto simp: newlines_ok_Cons numeral_2_eq_2)
    then show ?thesis
      by (simp only: eq)
  next
    case False
    have ih: "newlines_ok (squeeze_newlines (b # c # cs))"
      using 1(2) False by simp
    have t2: "take 2 (squeeze_newlines (b # c # cs)) = [b, c]"
      by (simp only: squeeze_newlines_take2) (simp add: numeral_2_eq_2)
    have eq: "squeeze_newlines (a # b # c # cs) = a # squeeze_newlines (b # c # cs)"
      using False by auto
    show ?thesis
      unfolding eq newlines_ok_Cons using ih t2 False by simp
  qed
qed simp_all

lemma squeeze_newlines_fix: "newlines_ok xs \<Longrightarrow> squeeze_newlines xs = xs"
  by (induction xs rule: squeeze_newlines.induct) auto

lemma set_squeeze_blanks: "set (squeeze_blanks xs) \<subseteq> insert SP (set xs)"
proof (induction xs rule: squeeze_blanks.induct)
  case 1
  then show ?case by simp
next
  case (2 c cs)
  have "set (dropWhile is_blank cs) \<subseteq> set cs"
    by (rule set_dropWhileD [THEN subsetI])
  with 2 show ?case by auto
qed

lemma set_squeeze_newlines: "set (squeeze_newlines xs) \<subseteq> set xs"
proof (induction xs rule: squeeze_newlines.induct)
  case (1 a b c cs)
  have "set (dropWhile (\<lambda>x. x = LF) cs) \<subseteq> set cs"
    by (rule set_dropWhileD [THEN subsetI])
  with 1 show ?case by auto
qed simp_all

lemma set_py_strip: "set (py_strip xs) \<subseteq> set xs"
proof -
  have "set (dropWhile is_space (rev (dropWhile is_space xs))) \<subseteq> set (rev (dropWhile is_space xs))"
    by (rule set_dropWhileD [THEN subsetI])
  moreover have "set (dropWhile is_space xs) \<subseteq> set xs"
    by (rule set_dropWhileD [THEN subsetI])
  ultimately show ?thesis
    unfolding py_strip_def by auto
qed

lemma no_cr_cr_to_lf: "CR \<notin> set (cr_to_lf t)"
  by (auto simp: cr_to_lf_def)

lemma cr_to_lf_fix: "CR \<notin> set t \<Longrightarrow> cr_to_lf t = t"
  unfolding cr_to_lf_def by (induction t) auto

lemma no_cr_clean_text: "CR \<notin> set (clean_text t)"
proof -
  have "set (clean_text t) \<subseteq> insert SP (set (cr_to_lf t))"
    unfolding clean_text_def
    using set_py_strip set_squeeze_newlines set_squeeze_blanks by fast
  then show ?thesis
    using no_cr_cr_to_lf [of t] by auto
qed

lemma py_strip_idem: "py_strip (py_strip s) = py_strip s"
proof -
  let ?ys = "dropWhile is_space s"
  let ?z = "rev (dropWhile is_space (rev ?ys))"
  have z: "py_strip s = ?z"
    by (simp add: py_strip_def)
  have "dropWhile is_space ?z = ?z"
  proof (cases "?z = []")
    case True
    then show ?thesis by (simp only: dropWhile.simps)
  next
    case False
    have split: "?z @ rev (takeWhile is_space (rev ?ys)) = ?ys"
      by (rule rev_dropWhile_rev_prefix)
    with False have "?ys \<noteq> []"
      by (metis append_is_Nil_conv)
    then have "\<not> is_space (hd ?ys)"
      by (rule dropWhile_hd)
    moreover from split False have "hd ?z = hd ?ys"
      by (metis hd_append2)
    ultimately show ?thesis
      using False by (cases ?z) auto
  qed
  then have "py_strip ?z = rev (dropWhile is_space (dropWhile is_space (rev ?ys)))"
    by (simp add: py_strip_def)
  then show ?thesis
    by (simp add: z dropWhile_idem)
qed

text \<open>
  Claim C9. The text normalizer is idempotent: normalizing a text that is already normalized
  returns it as it is, for every input text.
\<close>

theorem clean_text_idempotent: "clean_text (clean_text s) = clean_text s"
proof -
  let ?u = "clean_text s"
  let ?v = "squeeze_newlines (squeeze_blanks (cr_to_lf s))"
  have u: "?u = py_strip ?v"
    by (simp add: clean_text_def)
  have "blanks_ok ?v"
    by (intro blanks_ok_squeeze_newlines blanks_ok_squeeze_blanks)
  then have b: "blanks_ok ?u"
    unfolding u by (rule blanks_ok_strip)
  have "newlines_ok ?v"
    by (rule newlines_ok_squeeze_newlines)
  then have n: "newlines_ok ?u"
    unfolding u by (rule newlines_ok_strip)
  have "clean_text ?u = py_strip (squeeze_newlines (squeeze_blanks ?u))"
    by (simp add: clean_text_def [of ?u] cr_to_lf_fix no_cr_clean_text)
  also have "\<dots> = py_strip ?u"
    by (simp add: squeeze_blanks_fix [OF b] squeeze_newlines_fix [OF n])
  also have "\<dots> = ?u"
    unfolding u by (rule py_strip_idem)
  finally show ?thesis .
qed

subsection \<open>The section splitter\<close>

lemma search_le: "search e (p, r) = Some k \<Longrightarrow> k \<le> length r"
proof (induction r arbitrary: p k)
  case Nil
  then show ?case by (simp split: if_splits)
next
  case (Cons x xs)
  show ?case
  proof (cases "ends e (p, x # xs) \<noteq> []")
    case True
    with Cons.prems show ?thesis by simp
  next
    case False
    with Cons.prems obtain k' where "search e (Some x, xs) = Some k'" and "k = Suc k'"
      by auto
    with Cons.IH show ?thesis by auto
  qed
qed

lemma in_found:
  "(s, k) \<in> set (concat (map (\<lambda>(key, pat). case f pat of None \<Rightarrow> [] | Some start \<Rightarrow> [(start, key)]) hs))
     \<longleftrightarrow> (\<exists>pat. (k, pat) \<in> set hs \<and> f pat = Some s)"
proof (induction hs)
  case Nil
  show ?case by simp
next
  case (Cons h hs)
  obtain key pat where h: "h = (key, pat)"
    by (cases h)
  show ?case
  proof (cases "f pat")
    case None
    with Cons.IH show ?thesis
      by (auto simp: h)
  next
    case (Some start)
    with Cons.IH show ?thesis
      by (auto simp: h)
  qed
qed

lemma found_keys_distinct:
  "distinct (map fst hs) \<Longrightarrow>
     distinct (map snd (concat (map (\<lambda>(key, pat). case f pat of None \<Rightarrow> [] | Some start \<Rightarrow> [(start, key)]) hs)))"
proof (induction hs)
  case Nil
  show ?case by simp
next
  case (Cons h hs)
  let ?rest = "concat (map (\<lambda>(key, pat). case f pat of None \<Rightarrow> [] | Some start \<Rightarrow> [(start, key)]) hs)"
  obtain key pat where h: "h = (key, pat)"
    by (cases h)
  from Cons.prems have d: "distinct (map fst hs)" and new: "key \<notin> fst ` set hs"
    by (simp_all add: h)
  have ih: "distinct (map snd ?rest)"
    using Cons.IH d by simp
  have "key \<notin> snd ` set ?rest"
  proof
    assume "key \<in> snd ` set ?rest"
    then obtain y where "y \<in> set ?rest" and "key = snd y"
      by (rule imageE)
    then have "(fst y, key) \<in> set ?rest"
      by (metis prod.collapse)
    then obtain pat' where "(key, pat') \<in> set hs"
      using in_found [of "fst y" key f hs] by blast
    with new show False
      by force
  qed
  with ih show ?case
    by (cases "f pat") (simp_all add: h)
qed

lemma found_starts_le:
  assumes "\<And>pat k. f pat = Some k \<Longrightarrow> k \<le> n"
  shows "\<forall>x \<in> set (concat (map (\<lambda>(key, pat). case f pat of None \<Rightarrow> [] | Some start \<Rightarrow> [(start, key)]) hs)).
        fst x \<le> n"
proof
  fix x
  assume x: "x \<in> set (concat (map (\<lambda>(key, pat). case f pat of None \<Rightarrow> [] | Some start \<Rightarrow> [(start, key)]) hs))"
  obtain s k where xsk: "x = (s, k)"
    by (cases x)
  from x have "(s, k) \<in> set (concat (map (\<lambda>(key, pat). case f pat of None \<Rightarrow> [] | Some start \<Rightarrow> [(start, key)]) hs))"
    by (simp only: xsk)
  then obtain pat where "f pat = Some s"
    using in_found [of s k f hs] by blast
  with assms xsk show "fst x \<le> n"
    by simp
qed

lemma distinct_header_keys: "distinct (map fst HEADERS)"
  by (simp add: HEADERS_def)

lemma find_headers_keys: "distinct (map snd (find_headers t))"
  unfolding find_headers_def by (rule found_keys_distinct [OF distinct_header_keys])

lemma find_headers_le: "\<forall>x \<in> set (find_headers t). fst x \<le> length t"
  unfolding find_headers_def
  by (rule found_starts_le) (simp add: re_search_start_def search_le)

lemma sort_found_keys: "distinct (map snd (sort (find_headers t)))"
proof -
  have "distinct (find_headers t) \<and> inj_on snd (set (find_headers t))"
    using find_headers_keys [of t] by (simp add: distinct_map)
  then show ?thesis
    by (simp add: distinct_map)
qed

lemma sorted_pairs_fst: "sorted (fs :: (nat \<times> string) list) \<Longrightarrow> sorted (map fst fs)"
proof -
  assume "sorted fs"
  then have "sorted_wrt (\<lambda>x y. fst x \<le> fst y) fs"
    by (rule sorted_wrt_mono_rel [rotated]) (auto simp: less_eq_prod_def)
  then show ?thesis
    by (simp add: sorted_map)
qed

lemma bounds_heads: "map (\<lambda>(key, start, stop). (start, key)) (bounds n fs) = fs"
  by (induction n fs rule: bounds.induct) simp_all

lemma bounds_keys: "map fst (bounds n fs) = map snd fs"
  by (induction n fs rule: bounds.induct) simp_all

lemma bounds_starts: "map (\<lambda>(key, start, stop). start) (bounds n fs) = map fst fs"
  by (induction n fs rule: bounds.induct) simp_all

lemma bounds_ordered:
  "sorted (map fst fs) \<Longrightarrow> \<forall>x \<in> set fs. fst x \<le> n \<Longrightarrow>
     (\<forall>(key, start, stop) \<in> set (bounds n fs). start \<le> stop \<and> stop \<le> n) \<and>
     sorted_wrt (\<lambda>(key, start, stop) (key', start', stop'). stop \<le> start') (bounds n fs)"
proof (induction n fs rule: bounds.induct)
  case (1 n)
  show ?case by simp
next
  case (2 n start key)
  then show ?case by simp
next
  case (3 n start key nxt key' rest)
  let ?tl = "bounds n ((nxt, key') # rest)"
  have ih: "(\<forall>(key, start, stop) \<in> set ?tl. start \<le> stop \<and> stop \<le> n) \<and>
            sorted_wrt (\<lambda>(key, start, stop) (key', start', stop'). stop \<le> start') ?tl"
    using 3 by simp
  have "\<forall>s \<in> set (map fst ((nxt, key') # rest)). nxt \<le> s"
    using 3(2) by auto
  then have "\<forall>s \<in> set (map (\<lambda>(key, start, stop). start) ?tl). nxt \<le> s"
    by (simp only: bounds_starts)
  then have later: "\<forall>(key, start', stop') \<in> set ?tl. nxt \<le> start'"
    by auto
  have "start \<le> nxt" and "nxt \<le> n"
    using 3(2,3) by auto
  with ih later show ?case
    by auto
qed

lemma slice_join: "i \<le> j \<Longrightarrow> slice t i j @ drop j t = drop i t"
proof -
  assume "i \<le> j"
  have "drop i t = drop i (take j t @ drop j t)"
    by simp
  also have "\<dots> = drop i (take j t) @ drop (i - length (take j t)) (drop j t)"
    by (rule drop_append)
  also have "\<dots> = drop i (take j t) @ drop j t"
  proof (cases "j \<le> length t")
    case True
    with \<open>i \<le> j\<close> show ?thesis by simp
  next
    case False
    then show ?thesis by simp
  qed
  finally show ?thesis
    by (simp add: slice_def)
qed

lemma bounds_concat:
  "fs \<noteq> [] \<Longrightarrow> sorted (map fst fs) \<Longrightarrow>
     concat (map (\<lambda>(key, start, stop). slice t start stop) (bounds (length t) fs)) = drop (fst (hd fs)) t"
proof (induction "length t" fs rule: bounds.induct)
  case 1
  then show ?case by simp
next
  case (2 start key)
  show ?case by (simp add: slice_def)
next
  case (3 start key nxt key' rest)
  have "concat (map (\<lambda>(key, start, stop). slice t start stop) (bounds (length t) ((nxt, key') # rest)))
        = drop nxt t"
    using 3 by simp
  moreover have "start \<le> nxt"
    using 3(3) by simp
  ultimately show ?case
    by (simp add: slice_join)
qed

lemma fill_acc:
  "distinct (map fst bs) \<Longrightarrow>
     map_of (foldl (\<lambda>secs (key, start, stop). AList.update key (py_strip (slice t start stop)) secs) acc bs)
       = map_of acc ++ map_of (map (\<lambda>(key, start, stop). (key, py_strip (slice t start stop))) bs)"
proof (induction bs arbitrary: acc)
  case Nil
  show ?case by simp
next
  case (Cons b bs)
  obtain key start stop where b: "b = (key, start, stop)"
    by (cases b)
  let ?g = "\<lambda>(key, start, stop). (key, py_strip (slice t start stop))"
  from Cons.prems have d: "distinct (map fst bs)" and new: "key \<notin> fst ` set bs"
    by (simp_all add: b)
  have "fst ` set (map ?g bs) = fst ` set bs"
    by force
  with new have none: "map_of (map ?g bs) key = None"
    by (simp add: map_of_eq_None_iff)
  let ?f = "\<lambda>secs (key, start, stop). AList.update key (py_strip (slice t start stop)) secs"
  have "foldl ?f acc (b # bs) = foldl ?f (AList.update key (py_strip (slice t start stop)) acc) bs"
    by (simp add: b)
  also have "map_of \<dots> = map_of (AList.update key (py_strip (slice t start stop)) acc) ++ map_of (map ?g bs)"
    by (rule Cons.IH [OF d])
  also have "\<dots> = (map_of acc)(key \<mapsto> py_strip (slice t start stop)) ++ map_of (map ?g bs)"
    by (simp only: update_conv')
  also have "\<dots> = map_of acc ++ map_of (map ?g (b # bs))"
    using none by (auto simp: b map_add_def fun_eq_iff split: option.splits)
  finally show ?case .
qed

lemma fill_lookup:
  "distinct (map fst bs) \<Longrightarrow> (key, start, stop) \<in> set bs \<Longrightarrow>
     map_of (fill t bs) key = Some (py_strip (slice t start stop))"
proof -
  assume d: "distinct (map fst bs)" and m: "(key, start, stop) \<in> set bs"
  let ?g = "\<lambda>(key, start, stop). (key, py_strip (slice t start stop))"
  have e: "map fst (map ?g bs) = map fst bs"
    by (induction bs) auto
  have "distinct (map fst (map ?g bs))"
    unfolding e by (rule d)
  moreover have "(key, py_strip (slice t start stop)) \<in> set (map ?g bs)"
    using m by force
  ultimately have "map_of (map ?g bs) key = Some (py_strip (slice t start stop))"
    by (rule map_of_is_SomeI)
  then show ?thesis
    unfolding fill_def fill_acc [OF d] by simp
qed

lemma fill_keys: "fst ` set (fill t bs) = fst ` set bs"
proof -
  have "fst ` set (foldl (\<lambda>secs (key, start, stop). AList.update key (py_strip (slice t start stop)) secs) acc bs)
        = fst ` set acc \<union> fst ` set bs" for acc
  proof (induction bs arbitrary: acc)
    case Nil
    show ?case by simp
  next
    case (Cons b bs)
    obtain key start stop where b: "b = (key, start, stop)"
      by (cases b)
    show ?case
      by (auto simp: Cons.IH b dom_update)
  qed
  then show ?thesis
    by (simp add: fill_def)
qed

lemma split_sections_unfold:
  "split_sections text =
     (if find_headers (clean_text text) = [] then [(''summary'', clean_text text)]
      else if ''experience'' \<notin> snd ` set (find_headers (clean_text text)) \<and> 800 < length (clean_text text)
      then fill (clean_text text) (bounds (length (clean_text text)) (sort (find_headers (clean_text text))))
             @ [(''experience'', take 1500 (clean_text text))]
      else fill (clean_text text) (bounds (length (clean_text text)) (sort (find_headers (clean_text text)))))"
proof -
  let ?t = "clean_text text"
  let ?bs = "bounds (length ?t) (sort (find_headers ?t))"
  have "fst ` set (fill ?t ?bs) = set (map fst ?bs)"
    by (simp add: fill_keys)
  also have "\<dots> = snd ` set (find_headers ?t)"
    by (simp only: bounds_keys) simp
  finally have keys: "fst ` set (fill ?t ?bs) = snd ` set (find_headers ?t)" .
  show ?thesis
    unfolding split_sections_def Let_def keys setdefault_def by simp
qed

lemma lower_LF: "lower c = LF \<longleftrightarrow> c = LF"
proof
  assume l: "lower c = LF"
  let ?n = "of_char c :: nat"
  show "c = LF"
  proof (cases "(65 \<le> ?n \<and> ?n \<le> 90) \<or> (192 \<le> ?n \<and> ?n \<le> 222 \<and> ?n \<noteq> 215)")
    case True
    with l have "char_of (?n + 32) = LF"
      by (simp add: lower_def Let_def)
    then have "(of_char (char_of (?n + 32) :: char) :: nat) = of_char LF"
      by simp
    then have "(?n + 32) mod 256 = 10"
      by (simp only: of_char_of) simp
    with True show ?thesis
      by auto
  next
    case False
    with l show ?thesis
      by (simp add: lower_def Let_def)
  qed
next
  assume "c = LF"
  then show "lower c = LF"
    by (simp add: lower_def)
qed

lemma header_needs_newline:
  assumes "p \<noteq> None" and "r = [] \<or> hd r \<noteq> LF"
  shows "ends (header_rx pat) (p, r) = []"
proof -
  have "eat [LF] (p, r) = None"
  proof (cases r)
    case Nil
    then show ?thesis by simp
  next
    case (Cons x xs)
    with assms(2) have "lower x \<noteq> lower LF"
      using lower_LF [of x] lower_LF [of LF] by auto
    with Cons show ?thesis by simp
  qed
  with assms(1) have "ends (Alt Bol (Lit [LF])) (p, r) = []"
    by simp
  then show ?thesis
    by (simp add: header_rx_def)
qed

lemma search_no_newline: "LF \<notin> set r \<Longrightarrow> search (header_rx pat) (Some c, r) = None"
proof (induction r arbitrary: c)
  case Nil
  then show ?case
    by (simp add: header_needs_newline)
next
  case (Cons x xs)
  then have "ends (header_rx pat) (Some c, x # xs) = []"
    by (intro header_needs_newline) auto
  with Cons show ?case
    by simp
qed

lemma spaces_replicate: "\<not> is_space x \<Longrightarrow> spaces (p, replicate n x) = [(p, replicate n x)]"
  by (cases n) simp_all

lemma word_after_replicate: "word_after (replicate n x) = (n \<noteq> 0 \<and> is_word x)"
  by (cases n) (simp_all add: word_after_def)

lemma eat_replicate: "lower x \<noteq> lower c \<Longrightarrow> eat (c # cs) (p, replicate n x) = None"
  by (cases n) simp_all

lemma eol_replicate: "x \<noteq> LF \<Longrightarrow> n \<noteq> 0 \<Longrightarrow> ends Eol (p, replicate n x) = []"
  by (cases n) auto

lemma blanks_ok_replicate: "x \<noteq> TAB \<Longrightarrow> x \<noteq> SP \<Longrightarrow> blanks_ok (replicate n x)"
  by (induction n) (simp_all add: blanks_ok_Cons)

lemma newlines_ok_replicate: "x \<noteq> LF \<Longrightarrow> newlines_ok (replicate n x)"
  by (induction n) (simp_all add: newlines_ok_Cons)

lemma py_strip_fix: "t \<noteq> [] \<Longrightarrow> \<not> is_space (hd t) \<Longrightarrow> \<not> is_space (last t) \<Longrightarrow> py_strip t = t"
proof -
  assume ne: "t \<noteq> []" and h: "\<not> is_space (hd t)" and l: "\<not> is_space (last t)"
  from ne h have "dropWhile is_space t = t"
    by (cases t) simp_all
  moreover from ne l have "dropWhile is_space (rev t) = rev t"
    by (cases "rev t") (simp_all add: last_rev [symmetric] hd_rev)
  ultimately show ?thesis
    by (simp add: py_strip_def)
qed

lemma clean_text_fix:
  assumes "CR \<notin> set t" and "blanks_ok t" and "newlines_ok t"
    and "t \<noteq> []" and "\<not> is_space (hd t)" and "\<not> is_space (last t)"
  shows "clean_text t = t"
  using assms by (simp add: clean_text_def cr_to_lf_fix squeeze_blanks_fix squeeze_newlines_fix py_strip_fix)

lemmas search_no_newline_unfolded = search_no_newline [unfolded header_rx_def]

lemma long_plain_clean: "clean_text long_plain = long_plain"
  unfolding long_plain_def
  by (rule clean_text_fix) (simp_all add: blanks_ok_replicate newlines_ok_replicate is_space_def)

lemma long_plain_found: "find_headers long_plain = []"
proof -
  have u: "long_plain = CHR ''x'' # replicate 800 (CHR ''x'')"
    unfolding long_plain_def by (simp flip: replicate_Suc)
  show ?thesis
    unfolding u
    by (simp add: find_headers_def HEADERS_def header_rx_def re_search_start_def
          search_no_newline_unfolded word_before_def word_after_def is_word_def is_space_def lower_def)
qed

lemma long_skills_clean: "clean_text long_skills = long_skills"
  unfolding long_skills_def
  by (rule clean_text_fix)
     (simp_all add: blanks_ok_Cons blanks_ok_replicate newlines_ok_Cons newlines_ok_replicate is_space_def numeral_2_eq_2)

lemmas char_eval = word_before_def word_after_def is_word_def is_space_def lower_def char_of_def bit_Suc_0_iff

lemma long_skills_found: "find_headers long_skills = [(0, ''skills'')]"
  unfolding long_skills_def
  by (simp add: find_headers_def HEADERS_def header_rx_def re_search_start_def
        search_no_newline_unfolded spaces_replicate word_after_replicate eat_replicate eol_replicate
        char_eval)

lemma example_clean: "clean_text example_text = example_text"
  by code_simp

lemma example_found: "find_headers example_text = [(17, ''education''), (0, ''skills'')]"
  by code_simp

lemma example_sections:
  "split_sections example_text =
     [(''skills'', ''Skills\<newline>Python, Go''), (''education'', ''Education\<newline>BS CS'')]"
proof -
  have l: "length example_text = 33"
    by (simp add: example_text_def)
  have s: "sort [(17 :: nat, ''education''), (0, ''skills'')] = [(0, ''skills''), (17, ''education'')]"
    by simp
  have "fill example_text [(''skills'', 0, 17), (''education'', 17, 33)] =
          [(''skills'', ''Skills\<newline>Python, Go''), (''education'', ''Education\<newline>BS CS'')]"
    by (simp add: fill_def example_text_def slice_def py_strip_def is_space_def)
  then show ?thesis
    by (simp add: split_sections_unfold example_clean example_found l s)
qed

lemma experience_only_clean: "clean_text experience_only = experience_only"
  by code_simp

lemma experience_only_found: "find_headers experience_only = [(0, ''experience'')]"
  by code_simp

text \<open>
  Claim C8. On the text \<^verbatim>\<open>"Skills\nPython, Go\nEducation\nBS CS"\<close> the section splitter returns
  the mapping with exactly the two items \<^verbatim>\<open>"skills": "Skills\nPython, Go"\<close> and
  \<^verbatim>\<open>"education": "Education\nBS CS"\<close> (in this order of insertion).
\<close>

theorem split_sections_example:
  "split_sections ''Skills\<newline>Python, Go\<newline>Education\<newline>BS CS'' =
     [(''skills'', ''Skills\<newline>Python, Go''), (''education'', ''Education\<newline>BS CS'')]"
  using example_sections unfolding example_text_def .

text \<open>
  Claim C3, as the code has it. When at least one header is found in the cleaned text \<open>t\<close>,
  the spans \<open>t[start:stop]\<close> that the second loop cuts, one for each header found, are in
  the order of the headers' match positions, lie within \<open>t\<close>, are pairwise disjoint (each ends
  at or before the start of every later one), and their concatenation in that order is \<open>t\<close> from
  the first match position on. The text returned for a header is its span with white space
  trimmed at both ends, not the span itself.
\<close>

theorem section_spans:
  assumes "find_headers (clean_text text) \<noteq> []"
  shows "let t = clean_text text; found = sort (find_headers t); bs = bounds (length t) found in
           map (\<lambda>(key, start, stop). (start, key)) bs = found \<and>
           sorted (map fst found) \<and>
           (\<forall>(key, start, stop) \<in> set bs.
              start \<le> stop \<and> stop \<le> length t \<and>
              map_of (split_sections text) key = Some (py_strip (slice t start stop))) \<and>
           sorted_wrt (\<lambda>(key, start, stop) (key', start', stop'). stop \<le> start') bs \<and>
           concat (map (\<lambda>(key, start, stop). slice t start stop) bs) = drop (fst (hd found)) t"
proof -
  let ?t = "clean_text text"
  let ?found = "sort (find_headers ?t)"
  let ?bs = "bounds (length ?t) ?found"
  have ne: "?found \<noteq> []"
    using assms by (metis set_empty set_sort)
  have srt: "sorted (map fst ?found)"
    by (rule sorted_pairs_fst) simp
  have le: "\<forall>x \<in> set ?found. fst x \<le> length ?t"
    using find_headers_le [of ?t] by simp
  have d: "distinct (map fst ?bs)"
    by (simp only: bounds_keys sort_found_keys)
  have ord: "(\<forall>(key, start, stop) \<in> set ?bs. start \<le> stop \<and> stop \<le> length ?t) \<and>
             sorted_wrt (\<lambda>(key, start, stop) (key', start', stop'). stop \<le> start') ?bs"
    using srt le by (rule bounds_ordered)
  have look: "map_of (split_sections text) key = Some (py_strip (slice ?t start stop))"
    if m: "(key, start, stop) \<in> set ?bs" for key start stop
  proof -
    have f: "map_of (fill ?t ?bs) key = Some (py_strip (slice ?t start stop))"
      using d m by (rule fill_lookup)
    show ?thesis
      using assms f by (simp add: split_sections_unfold)
  qed
  have cat: "concat (map (\<lambda>(key, start, stop). slice ?t start stop) ?bs) = drop (fst (hd ?found)) ?t"
    using ne srt by (rule bounds_concat)
  show ?thesis
    unfolding Let_def using bounds_heads [of "length ?t" ?found] srt ord look cat by auto
qed

theorem section_spans_witness:
  "find_headers (clean_text example_text) \<noteq> [] \<and>
   bounds (length (clean_text example_text)) (sort (find_headers (clean_text example_text)))
     = [(''skills'', 0, 17), (''education'', 17, 33)] \<and>
   map_of (split_sections example_text) ''education'' = Some (py_strip (slice example_text 17 33)) \<and>
   slice example_text 0 17 @ slice example_text 17 33 = example_text"
proof -
  have ne: "find_headers (clean_text example_text) \<noteq> []"
    by (simp add: example_clean example_found)
  have l: "length example_text = 33"
    by (simp add: example_text_def)
  have b: "bounds (length (clean_text example_text)) (sort (find_headers (clean_text example_text)))
             = [(''skills'', 0, 17), (''education'', 17, 33)]"
    by (simp add: example_clean example_found l)
  have "map_of (split_sections example_text) ''education'' = Some (py_strip (slice example_text 17 33)) \<and>
        slice example_text 0 17 @ slice example_text 17 33 = drop 0 example_text"
    using section_spans [OF ne] unfolding Let_def b
    by (simp add: example_clean example_found)
  with ne b show ?thesis
    by simp
qed

text \<open>
  Claim C3 as stated fails: on the example text of the specification the texts returned,
  concatenated in order, lack the newline between the two sections, so they are not the
  original text.
\<close>

theorem spans_concat_counterexample:
  "concat (map snd (split_sections example_text)) = ''Skills\<newline>Python, GoEducation\<newline>BS CS'' \<and>
   concat (map snd (split_sections example_text)) \<noteq> example_text"
  unfolding example_sections by (simp add: example_text_def)

text \<open>
  Claim C2, as the code has it. When at least one header is found in the cleaned text \<open>t\<close>,
  none of them the experience header, and \<open>t\<close> is longer than 800 characters, the mapping
  returned is the one of the detected sections with the item \<open>experience\<close> added at the end,
  whose text is the first 1500 characters of \<open>t\<close>. When the experience header is found, the
  mapping is the one of the detected sections: nothing is overwritten. When no header is found
  at all, the mapping is the single item \<open>summary\<close> with the text \<open>t\<close>, whatever its length.
\<close>

theorem experience_fallback:
  "let t = clean_text text; found = find_headers t in
     (found \<noteq> [] \<and> ''experience'' \<notin> snd ` set found \<and> 800 < length t \<longrightarrow>
        split_sections text = fill t (bounds (length t) (sort found)) @ [(''experience'', take 1500 t)] \<and>
        map_of (split_sections text) ''experience'' = Some (take 1500 t)) \<and>
     (''experience'' \<in> snd ` set found \<longrightarrow>
        split_sections text = fill t (bounds (length t) (sort found))) \<and>
     (found = [] \<longrightarrow> split_sections text = [(''summary'', t)])"
proof -
  let ?t = "clean_text text"
  let ?bs = "bounds (length ?t) (sort (find_headers ?t))"
  have "fst ` set (fill ?t ?bs) = set (map fst ?bs)"
    by (simp add: fill_keys)
  also have "\<dots> = snd ` set (find_headers ?t)"
    by (simp only: bounds_keys) simp
  finally have keys: "fst ` set (fill ?t ?bs) = snd ` set (find_headers ?t)" .
  have "map_of (fill ?t ?bs @ [(''experience'', take 1500 ?t)]) ''experience'' = Some (take 1500 ?t)"
    if "''experience'' \<notin> snd ` set (find_headers ?t)"
  proof -
    from that keys have "map_of (fill ?t ?bs) ''experience'' = None"
      by (simp add: map_of_eq_None_iff)
    then show ?thesis
      by (simp add: map_add_def)
  qed
  then show ?thesis
    unfolding Let_def by (auto simp: split_sections_unfold)
qed

theorem experience_fallback_witness:
  "find_headers (clean_text long_skills) \<noteq> [] \<and>
   ''experience'' \<notin> snd ` set (find_headers (clean_text long_skills)) \<and>
   800 < length (clean_text long_skills) \<and>
   map_of (split_sections long_skills) ''experience'' = Some (take 1500 (clean_text long_skills)) \<and>
   ''experience'' \<in> snd ` set (find_headers (clean_text experience_only)) \<and>
   split_sections experience_only = [(''experience'', ''Experience'')] \<and>
   find_headers (clean_text long_plain) = [] \<and>
   split_sections long_plain = [(''summary'', long_plain)]"
proof -
  have ne: "find_headers (clean_text long_skills) \<noteq> []"
    and no: "''experience'' \<notin> snd ` set (find_headers (clean_text long_skills))"
    by (simp_all add: long_skills_clean long_skills_found)
  have l: "800 < length (clean_text long_skills)"
    by (simp add: long_skills_clean) (simp add: long_skills_def)
  have w: "map_of (split_sections long_skills) ''experience'' = Some (take 1500 (clean_text long_skills))"
    using experience_fallback [of long_skills] ne no l unfolding Let_def by blast
  have ex: "''experience'' \<in> snd ` set (find_headers (clean_text experience_only))"
    by (simp add: experience_only_clean experience_only_found)
  have "split_sections experience_only =
          fill (clean_text experience_only)
            (bounds (length (clean_text experience_only)) (sort (find_headers (clean_text experience_only))))"
    using experience_fallback [of experience_only] ex unfolding Let_def by blast
  also have "\<dots> = [(''experience'', ''Experience'')]"
    by (simp add: experience_only_clean experience_only_found)
       (simp add: fill_def experience_only_def slice_def py_strip_def is_space_def)
  finally have e: "split_sections experience_only = [(''experience'', ''Experience'')]" .
  have none: "find_headers (clean_text long_plain) = []"
    by (simp add: long_plain_clean long_plain_found)
  have "split_sections long_plain = [(''summary'', clean_text long_plain)]"
    using experience_fallback [of long_plain] none unfolding Let_def by blast
  then have p: "split_sections long_plain = [(''summary'', long_plain)]"
    by (simp add: long_plain_clean)
  from ne no l w ex e none p show ?thesis
    by blast
qed

text \<open>
  Claim C2 as stated fails: a text of 801 characters without any header is longer than 800
  characters and has no experience header, and the mapping returned has the key \<open>summary\<close>
  only.
\<close>

theorem no_header_no_fallback_counterexample:
  "find_headers (clean_text long_plain) = [] \<and> 800 < length (clean_text long_plain) \<and>
   split_sections long_plain = [(''summary'', long_plain)] \<and>
   map_of (split_sections long_plain) ''experience'' = None"
proof -
  have "800 < length long_plain"
    by (simp add: long_plain_def)
  then show ?thesis
    by (simp add: split_sections_unfold long_plain_clean long_plain_found)
qed

subsection \<open>The handlers of the session\<close>

lemma py_index_in_range: "0 \<le> i \<Longrightarrow> i < int (length xs) \<Longrightarrow> py_index xs i = Some (xs ! nat i)"
  by (simp add: py_index_def)

lemma read_texts_no_pdf: "\<forall>f \<in> set fs. \<not> is_pdf_name (name f) \<Longrightarrow> read_texts fs = Inr []"
  by (induction fs) auto

lemma submit_answer_cases:
  assumes "submit_answer int_of_str r now s ans = Inr (m, s')"
  shows "s' = s \<or>
    (\<exists>e. s' = s\<lparr>transcript := transcript s @ [e]\<rparr> \<and>
       (case r of
          Raised x \<Rightarrow> False
        | Unparsed raw \<Rightarrow> rating e = 0
        | Parsed d \<Rightarrow>
            (\<exists>items. d = JObj items \<and>
               py_int int_of_str (case map_of items ''rating'' of None \<Rightarrow> JInt 0 | Some v \<Rightarrow> v) = Inr (rating e))))"
proof (cases r)
  case (Raised x)
  with assms show ?thesis
    by (auto simp: submit_answer_def Let_def split: option.splits if_splits)
next
  case (Unparsed raw)
  with assms show ?thesis
    by (auto simp: submit_answer_def Let_def py_get_def py_int_def split: option.splits if_splits)
next
  case (Parsed d)
  show ?thesis
  proof (cases d)
    case (JObj items)
    with Parsed assms show ?thesis
      by (auto simp: submit_answer_def Let_def py_get_def split: option.splits if_splits sum.splits)
  qed (use Parsed assms in \<open>auto simp: submit_answer_def Let_def py_get_def split: option.splits if_splits\<close>)
qed

lemma submit_answer_keeps:
  "submit_answer int_of_str r now s ans = Inr (m, s') \<Longrightarrow>
     bank s' = bank s \<and> asked s' = asked s \<and> current s' = current s"
  by (auto simp: submit_answer_def Let_def
           split: option.splits if_splits sum.splits reply.splits)

lemma build_cv:
  "start_session id one_question (Some [cv_pdf]) =
     Inr (BankBuilt 1, state_A\<lparr>asked := {}, current := None\<rparr>)"
  by code_simp

lemma state_A_reached:
  "step int_of_str (Next 0) (step int_of_str (Build id one_question (Some [cv_pdf])) empty_state) = state_A"
proof -
  have "snd (next_question 0 (state_A\<lparr>asked := {}, current := None\<rparr>)) = state_A"
    by code_simp
  then show ?thesis
    by (simp add: build_cv)
qed

lemma reachable_state_A: "reachable int_of_str state_A"
proof -
  have "reachable int_of_str
          (step int_of_str (Next 0) (step int_of_str (Build id one_question (Some [cv_pdf])) empty_state))"
    by (intro reachable.step reachable.start)
  then show ?thesis
    by (simp only: state_A_reached)
qed

text \<open>
  Claim C1, as the code has it. The two input errors of build (no files; files, but none
  named as a PDF) are reported as warnings and the session is reset to the empty state, whatever
  it was before. The two input errors of submit (no active question, which includes a current
  index beyond the bank; an answer that is empty once trimmed) are reported as warnings and
  the state is the one before the call.
\<close>

theorem input_errors:
  "(files = None \<or> files = Some [] \<longrightarrow>
      start_session shuffle backend files = Inr (UploadWarning, empty_state) \<and>
      step int_of_str (Build shuffle backend files) s = empty_state) \<and>
   (files = Some fs \<and> fs \<noteq> [] \<and> (\<forall>f \<in> set fs. \<not> is_pdf_name (name f)) \<longrightarrow>
      start_session shuffle backend files = Inr (NoPdfWarning, empty_state) \<and>
      step int_of_str (Build shuffle backend files) s = empty_state) \<and>
   (current s = None \<or> (\<exists>idx. current s = Some idx \<and> int (length (bank s)) \<le> idx) \<longrightarrow>
      submit_answer int_of_str r now s ans = Inr (NextFirstWarning, s) \<and>
      step int_of_str (Submit r now ans) s = s) \<and>
   (current s = Some idx \<and> idx < int (length (bank s)) \<and> py_strip (case ans of None \<Rightarrow> [] | Some x \<Rightarrow> x) = [] \<longrightarrow>
      submit_answer int_of_str r now s ans = Inr (TypeAnswerWarning, s) \<and>
      step int_of_str (Submit r now ans) s = s)"
proof (intro conjI impI)
  assume "files = None \<or> files = Some []"
  then show "start_session shuffle backend files = Inr (UploadWarning, empty_state)"
    by (auto simp: start_session_def)
  then show "step int_of_str (Build shuffle backend files) s = empty_state"
    by simp
next
  assume h: "files = Some fs \<and> fs \<noteq> [] \<and> (\<forall>f \<in> set fs. \<not> is_pdf_name (name f))"
  then have "read_texts fs = Inr []"
    by (simp add: read_texts_no_pdf)
  with h show "start_session shuffle backend files = Inr (NoPdfWarning, empty_state)"
    by (cases fs) (auto simp: start_session_def)
  then show "step int_of_str (Build shuffle backend files) s = empty_state"
    by simp
next
  assume "current s = None \<or> (\<exists>idx. current s = Some idx \<and> int (length (bank s)) \<le> idx)"
  then show "submit_answer int_of_str r now s ans = Inr (NextFirstWarning, s)"
    by (auto simp: submit_answer_def)
  then show "step int_of_str (Submit r now ans) s = s"
    by simp
next
  assume "current s = Some idx \<and> idx < int (length (bank s)) \<and> py_strip (case ans of None \<Rightarrow> [] | Some x \<Rightarrow> x) = []"
  then show "submit_answer int_of_str r now s ans = Inr (TypeAnswerWarning, s)"
    by (auto simp: submit_answer_def)
  then show "step int_of_str (Submit r now ans) s = s"
    by simp
qed

theorem input_errors_witness:
  "step (\<lambda>x. None) (Build id (\<lambda>sec. Raised ''down'') None) state_A = empty_state \<and>
   step (\<lambda>x. None) (Build id (\<lambda>sec. Raised ''down'') (Some [notes_txt])) state_A = empty_state \<and>
   submit_answer (\<lambda>x. None) (Parsed JNull) 0 state_B (Some ''I use Go'') = Inr (NextFirstWarning, state_B) \<and>
   submit_answer (\<lambda>x. None) (Parsed JNull) 0 state_A (Some ''   '') = Inr (TypeAnswerWarning, state_A)"
proof -
  have pdf: "\<not> is_pdf_name (name notes_txt)"
    by (simp add: notes_txt_def is_pdf_name_def lower_def)
  have blank: "py_strip ''   '' = []"
    by (simp add: py_strip_def is_space_def)
  have a: "current state_A = Some 0 \<and> (0::int) < int (length (bank state_A))"
    by (simp add: state_A_def)
  have b: "current state_B = None"
    by (simp add: state_B_def)
  show ?thesis
    using input_errors [of None id "\<lambda>sec. Raised ''down''" "\<lambda>x. None" state_A "[]" "Parsed JNull" 0 None 0]
      input_errors [of "Some [notes_txt]" id "\<lambda>sec. Raised ''down''" "\<lambda>x. None" state_A "[notes_txt]" "Parsed JNull" 0 None 0]
      input_errors [of None id "\<lambda>sec. Raised ''down''" "\<lambda>x. None" state_B "[]" "Parsed JNull" 0 "Some ''I use Go''" 0]
      input_errors [of None id "\<lambda>sec. Raised ''down''" "\<lambda>x. None" state_A "[]" "Parsed JNull" 0 "Some ''   ''" 0]
      pdf blank a b
    by simp
qed

text \<open>
  Claim C1 as stated fails for build: in the session \<^const>\<open>state_A\<close>, reached by a build and
  a next call, a build without files reports the warning and replaces the state by the empty one.
\<close>

theorem build_error_resets_counterexample:
  "reachable (\<lambda>x. None) state_A \<and>
   start_session id one_question None = Inr (UploadWarning, empty_state) \<and>
   step (\<lambda>x. None) (Build id one_question None) state_A = empty_state \<and>
   bank state_A \<noteq> bank empty_state"
  using reachable_state_A [of "\<lambda>x. None"]
  by (simp add: start_session_def state_A_def empty_state_def)

text \<open>
  Claim C6. In a state with an active question, on an answer that is not empty once trimmed,
  when the call to the critique backend raises, submit returns the error message with the text
  of the exception and the state it was given: nothing is appended to the transcript.
\<close>

theorem submit_backend_exception:
  assumes "current s = Some idx" and "0 \<le> idx" and "idx < int (length (bank s))"
    and "py_strip a \<noteq> []"
  shows "submit_answer int_of_str (Raised e) now s (Some a) = Inr (ApiError (BackendError e), s)"
  using assms by (simp add: submit_answer_def py_index_in_range)

theorem submit_backend_exception_witness:
  "current state_A = Some 0 \<and> (0::int) < int (length (bank state_A)) \<and> py_strip ''I use Go'' \<noteq> [] \<and>
   submit_answer (\<lambda>x. None) (Raised ''timeout'') 0 state_A (Some ''I use Go'')
     = Inr (ApiError (BackendError ''timeout''), state_A)"
proof -
  have c: "current state_A = Some 0" and l: "(0::int) < int (length (bank state_A))"
    by (simp_all add: state_A_def)
  have a: "py_strip ''I use Go'' \<noteq> []"
    by (simp add: py_strip_def is_space_def)
  show ?thesis
    using c l a submit_backend_exception [OF c _ l a, of "\<lambda>x. None" "''timeout''" 0] by simp
qed

text \<open>
  Claim C7, as the code has it. Every entry that submit appends to the transcript has as rating
  the integer that \<^verbatim>\<open>int\<close> makes of the \<^verbatim>\<open>rating\<close> field of the parsed reply, or of 0 when the
  reply has no such field; the rating is 0 when the reply failed strict JSON parsing. The code
  does not check that the integer is between 1 and 5.
\<close>

theorem appended_rating:
  assumes "submit_answer int_of_str r now s ans = Inr (m, s')" and "transcript s' \<noteq> transcript s"
  shows "\<exists>e. transcript s' = transcript s @ [e] \<and>
       (case r of
          Raised x \<Rightarrow> False
        | Unparsed raw \<Rightarrow> rating e = 0
        | Parsed d \<Rightarrow>
            (\<exists>items. d = JObj items \<and>
               py_int int_of_str (case map_of items ''rating'' of None \<Rightarrow> JInt 0 | Some v \<Rightarrow> v) = Inr (rating e)))"
  using submit_answer_cases [OF assms(1)] assms(2) by auto

theorem appended_rating_witness:
  "submit_answer (\<lambda>x. None) (Unparsed ''sorry'') 0 state_A (Some ''I use Go'') =
     Inr (Critique 0 (JList [JStr ''(Model returned non-JSON; retry)'']) (JStr []),
          state_A\<lparr>transcript :=
            [\<lparr>ts = 0, t_section = ''skills'', t_question = Asked (JStr ''Which languages?''),
              answer = ''I use Go'', feedback = JList [JStr ''(Model returned non-JSON; retry)''],
              rating = 0, sample_answer = JStr []\<rparr>]\<rparr>) \<and>
   (\<exists>e. [\<lparr>ts = 0, t_section = ''skills'', t_question = Asked (JStr ''Which languages?''),
              answer = ''I use Go'', feedback = JList [JStr ''(Model returned non-JSON; retry)''],
              rating = 0, sample_answer = JStr []\<rparr>] = transcript state_A @ [e] \<and> rating e = 0)"
proof -
  let ?s' = "state_A\<lparr>transcript :=
            [\<lparr>ts = 0, t_section = ''skills'', t_question = Asked (JStr ''Which languages?''),
              answer = ''I use Go'', feedback = JList [JStr ''(Model returned non-JSON; retry)''],
              rating = 0, sample_answer = JStr []\<rparr>]\<rparr>"
  have run: "submit_answer (\<lambda>x. None) (Unparsed ''sorry'') 0 state_A (Some ''I use Go'') =
     Inr (Critique 0 (JList [JStr ''(Model returned non-JSON; retry)'']) (JStr []), ?s')"
    by (simp add: submit_answer_def state_A_def py_strip_def is_space_def py_index_def py_get_def
                  py_int_def truthy_def py_iter_def)
  have new: "transcript ?s' \<noteq> transcript state_A"
    by (simp add: state_A_def)
  show ?thesis
    using run appended_rating [OF run new] by simp
qed

text \<open>
  Claim C7 as stated fails: when the backend answers with the rating 9, the entry appended
  has the rating 9, which is neither between 1 and 5 nor the 0 of a reply that failed to parse.
\<close>

theorem rating_out_of_range_counterexample:
  "submit_answer (\<lambda>x. None)
     (Parsed (JObj [(''feedback'', JList [JStr ''More detail'']), (''rating'', JInt 9),
                    (''sample_answer'', JStr ''I shipped X'')])) 0 state_A (Some ''I use Go'')
     = Inr (Critique 9 (JList [JStr ''More detail'']) (JStr ''I shipped X''),
            state_A\<lparr>transcript :=
              [\<lparr>ts = 0, t_section = ''skills'', t_question = Asked (JStr ''Which languages?''),
                answer = ''I use Go'', feedback = JList [JStr ''More detail''], rating = 9,
                sample_answer = JStr ''I shipped X''\<rparr>]\<rparr>)"
  by (simp add: submit_answer_def state_A_def py_strip_def is_space_def py_index_def py_get_def
                py_int_def truthy_def py_iter_def)

text \<open>
  Claim C10. In a state whose current index is greater than or equal to the length of the bank,
  submit returns the warning it returns when no question is active, and the state it was given;
  the result is not the \<^verbatim>\<open>IndexError\<close> of an access out of range: the bank is not indexed.
\<close>

theorem submit_index_guard:
  assumes "current s = Some idx" and "int (length (bank s)) \<le> idx"
  shows "submit_answer int_of_str r now s ans = Inr (NextFirstWarning, s) \<and>
         submit_answer int_of_str r now (s\<lparr>current := None\<rparr>) ans = Inr (NextFirstWarning, s\<lparr>current := None\<rparr>) \<and>
         submit_answer int_of_str r now s ans \<noteq> Inl IndexError"
  using assms by (simp add: submit_answer_def)

theorem submit_index_guard_witness:
  "current state_C = Some 3 \<and> int (length (bank state_C)) \<le> 3 \<and>
   submit_answer (\<lambda>x. None) (Parsed JNull) 0 state_C (Some ''I use Go'') = Inr (NextFirstWarning, state_C)"
proof -
  have c: "current state_C = Some 3" and l: "int (length (bank state_C)) \<le> 3"
    by (simp_all add: state_C_def)
  show ?thesis
    using c l submit_index_guard [OF c l, of "\<lambda>x. None" "Parsed JNull" 0 "Some ''I use Go''"] by simp
qed

subsection \<open>The invariant of the session\<close>

lemma set_range: "set (map int [0 ..< n]) = {0 ..< int n}"
proof
  show "set (map int [0 ..< n]) \<subseteq> {0 ..< int n}"
    by auto
  show "{0 ..< int n} \<subseteq> set (map int [0 ..< n])"
  proof
    fix x assume "x \<in> {0 ..< int n}"
    then have "nat x \<in> {0 ..< n}" and "x = int (nat x)"
      by auto
    then show "x \<in> set (map int [0 ..< n])"
      by (metis image_eqI set_map set_upt)
  qed
qed

lemma set_candidates: "set (candidates s) = {0 ..< int (length (bank s))} - asked s"
  unfolding candidates_def set_filter set_range by auto

lemma distinct_candidates: "distinct (candidates s)"
  by (simp add: candidates_def distinct_map inj_on_def)

lemma next_question_exhausted:
  "candidates s = [] \<Longrightarrow> next_question r s = (AllCompleted, s\<lparr>current := None\<rparr>)"
  by (simp add: next_question_def)

lemma next_question_pick:
  assumes "candidates s \<noteq> []"
  shows "\<exists>i. i \<in> set (candidates s) \<and>
           next_question r s =
             (Question (b_section (bank s ! nat i)) (b_question (bank s ! nat i)),
              s\<lparr>asked := insert i (asked s), current := Some i\<rparr>)"
proof -
  let ?c = "candidates s"
  have "r mod length ?c < length ?c"
    using assms by simp
  then have "?c ! (r mod length ?c) \<in> set ?c"
    by (rule nth_mem)
  then show ?thesis
    using assms by (intro exI [of _ "?c ! (r mod length ?c)"]) (simp add: next_question_def Let_def)
qed

lemma next_question_inv: "session_inv s \<Longrightarrow> session_inv (snd (next_question r s))"
proof (cases "candidates s = []")
  case True
  assume "session_inv s"
  with True show ?thesis
    by (simp add: next_question_exhausted session_inv_def)
next
  case False
  assume inv: "session_inv s"
  from next_question_pick [OF False, of r] obtain i where
    i: "i \<in> set (candidates s)" and
    eq: "snd (next_question r s) = s\<lparr>asked := insert i (asked s), current := Some i\<rparr>"
    by auto
  from i have "0 \<le> i \<and> i < int (length (bank s))"
    by (simp add: set_candidates)
  with inv show ?thesis
    unfolding eq by (auto simp: session_inv_def)
qed

lemma start_session_inv: "start_session shuffle backend files = Inr (m, s') \<Longrightarrow> session_inv s'"
  by (auto simp: start_session_def session_inv_def empty_state_def Let_def
           split: option.splits list.splits sum.splits if_splits)

lemma step_inv: "session_inv s \<Longrightarrow> session_inv (step int_of_str a s)"
proof (cases a)
  case (Build shuffle backend files)
  assume "session_inv s"
  with Build show ?thesis
    by (auto split: sum.splits dest: start_session_inv)
next
  case (Next r)
  assume "session_inv s"
  with Next show ?thesis
    by (simp add: next_question_inv)
next
  case (Submit r now ans)
  assume inv: "session_inv s"
  show ?thesis
  proof (cases "submit_answer int_of_str r now s ans")
    case (Inl e)
    with Submit inv show ?thesis by simp
  next
    case (Inr p)
    obtain m s' where p: "p = (m, s')"
      by (cases p)
    from submit_answer_keeps [OF Inr [unfolded p]] inv have "session_inv s'"
      by (simp add: session_inv_def split: option.splits)
    with Submit Inr p show ?thesis by simp
  qed
next
  case Export
  assume "session_inv s"
  with Export show ?thesis by simp
qed

lemma reachable_inv: "reachable int_of_str s \<Longrightarrow> session_inv s"
proof (induction rule: reachable.induct)
  case start
  show ?case
    by (simp add: session_inv_def empty_state_def)
next
  case (step s a)
  then show ?case
    by (simp add: step_inv)
qed

text \<open>
  Claim C5. In every state reachable from the empty state by build, next, submit and export,
  \<open>asked\<close> holds only indices of the bank, and \<open>current\<close>, when it is set, is in \<open>asked\<close>.
\<close>

theorem reachable_invariant:
  assumes "reachable int_of_str s"
  shows "asked s \<subseteq> {0 ..< int (length (bank s))} \<and> (\<forall>i. current s = Some i \<longrightarrow> i \<in> asked s)"
  using reachable_inv [OF assms] by (auto simp: session_inv_def split: option.splits)

theorem reachable_invariant_witness:
  "reachable (\<lambda>x. None)
     (step (\<lambda>x. None) (Next 0) (step (\<lambda>x. None) (Build id one_question (Some [cv_pdf])) empty_state)) \<and>
   asked state_A \<subseteq> {0 ..< int (length (bank state_A))} \<and>
   current state_A = Some 0 \<and> 0 \<in> asked state_A"
proof -
  let ?s = "step (\<lambda>x. None) (Next 0) (step (\<lambda>x. None) (Build id one_question (Some [cv_pdf])) empty_state)"
  have r: "reachable (\<lambda>x. None) ?s"
    by (intro reachable.step reachable.start)
  have c: "current state_A = Some 0"
    by (simp add: state_A_def)
  have "asked state_A \<subseteq> {0 ..< int (length (bank state_A))} \<and>
        (\<forall>i. current state_A = Some i \<longrightarrow> i \<in> asked state_A)"
    using reachable_invariant [OF r] unfolding state_A_reached .
  with r c show ?thesis
    by blast
qed

subsection \<open>Runs of next calls\<close>

lemma after_calls_Nil: "after_calls [] s = s"
  by (simp add: after_calls_def)

lemma after_calls_Cons: "after_calls (r # rs) s = after_calls rs (snd (next_question r s))"
  by (simp add: after_calls_def)

lemma after_calls_snoc: "after_calls (rs @ [r]) s = snd (next_question r (after_calls rs s))"
  by (simp add: after_calls_def)

lemma after_calls_append: "after_calls (rs @ rs') s = after_calls rs' (after_calls rs s)"
  by (simp add: after_calls_def)

lemma next_question_bank: "bank (snd (next_question r s)) = bank s"
  by (simp add: next_question_def Let_def)

lemma next_question_asked_mono: "asked s \<subseteq> asked (snd (next_question r s))"
  by (auto simp: next_question_def Let_def)

lemma next_question_current: "current (snd (next_question r s)) = Some i \<Longrightarrow> i \<in> asked (snd (next_question r s))"
  by (auto simp: next_question_def Let_def split: if_splits)

lemma after_calls_bank: "bank (after_calls rs s) = bank s"
  by (induction rs arbitrary: s) (simp_all add: after_calls_Nil after_calls_Cons next_question_bank)

lemma after_calls_asked_mono: "asked s \<subseteq> asked (after_calls rs s)"
proof (induction rs arbitrary: s)
  case Nil
  show ?case by (simp add: after_calls_Nil)
next
  case (Cons r rs)
  have "asked s \<subseteq> asked (snd (next_question r s))"
    by (rule next_question_asked_mono)
  also have "\<dots> \<subseteq> asked (after_calls rs (snd (next_question r s)))"
    by (rule Cons.IH)
  finally show ?case
    by (simp add: after_calls_Cons)
qed

lemma candidates_Nil_iff:
  "asked s \<subseteq> {0 ..< int (length (bank s))} \<Longrightarrow>
     candidates s = [] \<longleftrightarrow> card (asked s) = length (bank s)"
proof -
  assume sub: "asked s \<subseteq> {0 ..< int (length (bank s))}"
  have "candidates s = [] \<longleftrightarrow> set (candidates s) = {}"
    by simp
  also have "\<dots> \<longleftrightarrow> {0 ..< int (length (bank s))} \<subseteq> asked s"
    by (simp add: set_candidates)
  also have "\<dots> \<longleftrightarrow> asked s = {0 ..< int (length (bank s))}"
    using sub by auto
  also have "\<dots> \<longleftrightarrow> card (asked s) = card {0 ..< int (length (bank s))}"
    using sub by (metis card_subset_eq finite_atLeastLessThan_int)
  finally show ?thesis
    by simp
qed

lemma asked_card_le:
  "asked s \<subseteq> {0 ..< int (length (bank s))} \<Longrightarrow> card (asked s) \<le> length (bank s)"
  using card_mono [of "{0 ..< int (length (bank s))}" "asked s"] by simp

lemma next_question_card:
  assumes sub: "asked s \<subseteq> {0 ..< int (length (bank s))}"
  shows "asked (snd (next_question r s)) \<subseteq> {0 ..< int (length (bank s))} \<and>
         card (asked (snd (next_question r s))) = min (Suc (card (asked s))) (length (bank s))"
proof (cases "candidates s = []")
  case True
  then have "card (asked s) = length (bank s)"
    using candidates_Nil_iff [OF sub] by simp
  with True sub show ?thesis
    by (simp add: next_question_exhausted)
next
  case False
  from next_question_pick [OF False, of r] obtain i where
    i: "i \<in> set (candidates s)" and
    eq: "snd (next_question r s) = s\<lparr>asked := insert i (asked s), current := Some i\<rparr>"
    by auto
  from i have in_range: "0 \<le> i \<and> i < int (length (bank s))" and new: "i \<notin> asked s"
    by (simp_all add: set_candidates)
  have fin: "finite (asked s)"
    using sub by (rule finite_subset) simp
  have "card (asked s) \<noteq> length (bank s)"
    using False candidates_Nil_iff [OF sub] by simp
  then have "card (asked s) < length (bank s)"
    using asked_card_le [OF sub] by simp
  with in_range new fin sub show ?thesis
    unfolding eq by auto
qed

lemma after_calls_card:
  "asked s \<subseteq> {0 ..< int (length (bank s))} \<Longrightarrow>
     asked (after_calls rs s) \<subseteq> {0 ..< int (length (bank s))} \<and>
     card (asked (after_calls rs s)) = min (card (asked s) + length rs) (length (bank s))"
proof (induction rs rule: rev_induct)
  case Nil
  then show ?case
    using asked_card_le [of s] by (simp add: after_calls_Nil)
next
  case (snoc r rs)
  let ?b = "after_calls rs s"
  have ih: "asked ?b \<subseteq> {0 ..< int (length (bank ?b))}"
    and c: "card (asked ?b) = min (card (asked s) + length rs) (length (bank s))"
    using snoc by (simp_all add: after_calls_bank)
  from next_question_card [OF ih, of r] c show ?case
    by (simp add: after_calls_snoc after_calls_bank)
qed

text \<open>
  Claim C4, as the code has it. Start from a bank of \<open>n\<close> questions of which none is asked,
  and make any run of next calls, whatever numbers are drawn. Each of the first \<open>n\<close> calls
  reports the question at an index of the bank that is not in \<open>asked\<close> and that no earlier
  call of the run made current, and adds that index to \<open>asked\<close>; so each index is added once
  and no index is reported twice. What a call reports is the section and the question of the
  bank entry at its index: the bank is used as it was built, duplicates included, so a question
  that the bank holds at two indices is reported once for each of them. Every later call, the
  call \<open>n + 1\<close> first, reports that all questions are completed; by then \<open>asked\<close> holds every
  index. (Calls are counted from 0 below.)
\<close>

theorem next_calls_no_repeat:
  assumes "asked s = {}" and "k < length rs"
  shows "let n = length (bank s); before = after_calls (take k rs) s;
             (m, after) = next_question (rs ! k) before
         in if k < n
            then \<exists>i. 0 \<le> i \<and> i < int n \<and> i \<notin> asked before \<and>
                   (\<forall>j<k. current (after_calls (take (Suc j) rs) s) \<noteq> Some i) \<and>
                   m = Question (b_section (bank s ! nat i)) (b_question (bank s ! nat i)) \<and>
                   after = before\<lparr>asked := insert i (asked before), current := Some i\<rparr>
            else m = AllCompleted \<and> after = before\<lparr>current := None\<rparr> \<and> asked before = {0 ..< int n}"
proof -
  let ?n = "length (bank s)"
  let ?b = "after_calls (take k rs) s"
  have sub0: "asked s \<subseteq> {0 ..< int ?n}"
    using assms(1) by simp
  have bank: "bank ?b = bank s"
    by (rule after_calls_bank)
  have sub: "asked ?b \<subseteq> {0 ..< int (length (bank ?b))}"
    using after_calls_card [OF sub0, of "take k rs"] by (simp add: bank)
  have card: "card (asked ?b) = min k ?n"
    using after_calls_card [OF sub0, of "take k rs"] assms by simp
  show ?thesis
  proof (cases "k < ?n")
    case True
    then have "candidates ?b \<noteq> []"
      using candidates_Nil_iff [OF sub] card by (simp add: bank)
    from next_question_pick [OF this, of "rs ! k"] obtain i where
      i: "i \<in> set (candidates ?b)" and
      eq: "next_question (rs ! k) ?b =
             (Question (b_section (bank ?b ! nat i)) (b_question (bank ?b ! nat i)),
              ?b\<lparr>asked := insert i (asked ?b), current := Some i\<rparr>)"
      by auto
    from i have range: "0 \<le> i \<and> i < int ?n" and new: "i \<notin> asked ?b"
      by (simp_all add: set_candidates bank)
    have earlier: "current (after_calls (take (Suc j) rs) s) \<noteq> Some i" if "j < k" for j
    proof
      assume cur: "current (after_calls (take (Suc j) rs) s) = Some i"
      from that assms(2) have j: "j < length rs"
        by simp
      then have split: "take (Suc j) rs = take j rs @ [rs ! j]"
        by (rule take_Suc_conv_app_nth)
      from cur have "i \<in> asked (after_calls (take (Suc j) rs) s)"
        unfolding split after_calls_snoc by (rule next_question_current)
      moreover have "take k rs = take (Suc j) rs @ drop (Suc j) (take k rs)"
        using that by (metis Suc_leI append_take_drop_id min.absorb1 take_take)
      then have "asked (after_calls (take (Suc j) rs) s) \<subseteq> asked ?b"
        by (metis after_calls_append after_calls_asked_mono)
      ultimately show False
        using new by auto
    qed
    from True range new earlier eq show ?thesis
      by (auto simp: Let_def bank)
  next
    case False
    then have "card (asked ?b) = ?n"
      using card by simp
    then have none: "candidates ?b = []"
      using candidates_Nil_iff [OF sub] by (simp add: bank)
    then have "{0 ..< int ?n} \<subseteq> asked ?b"
      using set_candidates [of ?b] by (simp add: bank)
    with sub have "asked ?b = {0 ..< int ?n}"
      by (auto simp: bank)
    with False none show ?thesis
      by (simp add: Let_def next_question_exhausted)
  qed
qed

theorem next_calls_no_repeat_witness:
  "asked state_B = {} \<and> 2 < length [7, 4, 2 :: nat] \<and>
   fst (next_question 2 (after_calls [7, 4] state_B)) = AllCompleted \<and>
   asked (after_calls [7, 4] state_B) = {0 ..< 2}"
proof -
  have a: "asked state_B = {}" and n: "length (bank state_B) = 2"
    by (simp_all add: state_B_def)
  have l: "2 < length [7, 4, 2 :: nat]"
    by simp
  have "\<not> (2 < length (bank state_B))"
    by (simp add: n)
  with next_calls_no_repeat [OF a l]
  have "fst (next_question 2 (after_calls [7, 4] state_B)) = AllCompleted \<and>
        asked (after_calls [7, 4] state_B) = {0 ..< int (length (bank state_B))}"
    by (simp add: Let_def split: prod.splits)
  with a l n show ?thesis
    by simp
qed

lemma build_same_twice:
  "start_session id same_question_twice (Some [cv_pdf]) = Inr (BankBuilt 2, state_D)"
  by code_simp

text \<open>
  Claim C4 as stated fails in two of its parts. With a bank of 2 questions the second next call
  reports a question, not exhaustion. And when the backend sends the same question twice, the
  bank that build returns holds it at both indices; the first next call reports it, leaves
  index 0 unasked, and the second next call reports the same question again.
\<close>

theorem next_calls_counterexample:
  "length (bank state_B) = 2 \<and> asked state_B = {} \<and>
   fst (next_question 4 (after_calls [7] state_B)) = Question ''skills'' (Asked (JStr ''Which languages?'')) \<and>
   fst (next_question 4 (after_calls [7] state_B)) \<noteq> AllCompleted \<and>
   start_session id same_question_twice (Some [cv_pdf]) = Inr (BankBuilt 2, state_D) \<and>
   fst (next_question 7 state_D) = Question ''skills'' (Asked (JStr ''Which languages?'')) \<and>
   asked (after_calls [7] state_D) = {1} \<and>
   fst (next_question 4 (after_calls [7] state_D)) = Question ''skills'' (Asked (JStr ''Which languages?''))"
proof -
  have b: "fst (next_question 4 (after_calls [7] state_B)) = Question ''skills'' (Asked (JStr ''Which languages?''))"
    by code_simp
  have d1: "fst (next_question 7 state_D) = Question ''skills'' (Asked (JStr ''Which languages?''))"
    by code_simp
  have d2: "asked (after_calls [7] state_D) = {1}"
    by code_simp
  have d3: "fst (next_question 4 (after_calls [7] state_D)) = Question ''skills'' (Asked (JStr ''Which languages?''))"
    by code_simp
  show ?thesis
    using b d1 d2 d3 build_same_twice by (simp add: state_B_def)
qed

end
